theory Spec2Isabelle
  imports Complex_Main
begin

section \<open>The audio engine of the wave generator\<close>

text \<open>
  A shallow embedding of \<^verbatim>\<open>src/hooks/useAudioEngine.ts\<close>. The hook keeps React state
  (\<^verbatim>\<open>audioContext\<close>, \<^verbatim>\<open>analyser\<close>) and three refs (\<^verbatim>\<open>binauralNodes\<close>, \<^verbatim>\<open>drumBuffers\<close>,
  \<^verbatim>\<open>chordOscillators\<close>); its functions build and mutate a graph of Web Audio nodes.

  Conventions of the model:
  \<^item> a JavaScript \<^verbatim>\<open>number\<close> is a \<^typ>\<open>real\<close>, and the arithmetic of the source is read as
    exact arithmetic, with one exception: the two levels of the noise mix,
    \<^verbatim>\<open>(1 - noiseMix) * 0.3\<close> and \<^verbatim>\<open>noiseMix * 0.3\<close>, are computed as the source computes
    them, each operation rounded to an IEEE double (\<open>double\<close> below), since whether they
    add up to 0.3 depends on the rounding. What the platform does with a value it is
    given (the single precision of an audio parameter or of a sample) is not modelled;
  \<^item> an audio node is an object with identity: the nodes live in a store, a list indexed
    by node id, and a reference to a node is its id. Creating a node appends to the store,
    so a new node is never an old one;
  \<^item> \<^verbatim>\<open>null\<close> is \<open>None\<close>;
  \<^item> the one exception the calls of the source can meet is the \<^verbatim>\<open>InvalidStateError\<close> of
    \<^verbatim>\<open>start()\<close> on a source that was started and of \<^verbatim>\<open>stop()\<close> on a source that never was;
    a function that can raise returns \<open>error + engine\<close>, and \<open>Inr\<close> is a normal return;
  \<^item> \<^verbatim>\<open>stop()\<close> and a scheduled change of a parameter act at once: time passes only in the
    field \<open>currentTime\<close> of the context;
  \<^item> a waveform is one of the four shapes the interface offers;
  \<^item> \<^verbatim>\<open>Math.random()\<close> reads the next value of a sequence held in the state.
\<close>

subsection \<open>The platform: parameters, buffers, nodes\<close>

datatype OscillatorType = Sine | Square | Sawtooth | Triangle

datatype NodeKind =
    AudioDestinationNode
  | AnalyserNode
  | OscillatorNode
  | GainNode
  | AudioBufferSourceNode
  | StereoPannerNode
  | ChannelMergerNode
  | DelayNode
  | ConvolverNode

datatype error = InvalidStateError

text \<open>A scheduled change of a parameter: \<^verbatim>\<open>setValueAtTime(v, t)\<close>, a step to \<open>v\<close> at time \<open>t\<close>.\<close>

datatype automation = SetValueAtTime real real

text \<open>
  An \<^verbatim>\<open>AudioParam\<close>: the value last assigned through \<^verbatim>\<open>.value\<close>, and the scheduled
  changes in the order of their calls.
\<close>

record AudioParam =
  param_value :: real
  events :: "automation list"

record AudioBuffer =
  buffer_sampleRate :: real
  channelData :: "real list list"

text \<open>
  One record for every kind of node; a field a kind does not have keeps its default.
  \<open>outputs\<close> are the connections made from the node, each the destination node with the
  output and input index.
\<close>

record AudioNode =
  kind :: NodeKind
  osc_type :: OscillatorType
  frequency :: AudioParam
  gain :: AudioParam
  pan :: AudioParam
  delayTime :: AudioParam
  buffer :: "AudioBuffer option"
  loop :: bool
  started :: bool
  stopped :: bool
  outputs :: "(nat \<times> nat \<times> nat) list"
  fftSize :: nat

record AudioContext =
  sampleRate :: real
  currentTime :: real
  destination :: nat

subsection \<open>The state of the hook\<close>

record BinauralNodes =
  leftOsc :: "nat option"
  rightOsc :: "nat option"
  leftGain :: "nat option"
  rightGain :: "nat option"
  noiseSource :: "nat option"
  noiseGain :: "nat option"
  toneGain :: "nat option"
  panNode :: "nat option"
  merger :: "nat option"
  delayNode :: "nat option"
  delayGain :: "nat option"
  convolverNode :: "nat option"
  reverbGain :: "nat option"

record engine =
  audioContext :: "AudioContext option"
  analyser :: "nat option"
  binauralNodes :: BinauralNodes
  drumBuffers :: "string \<rightharpoonup> AudioBuffer"
  chordOscillators :: "nat list"
  nodes :: "AudioNode list"
  random_values :: "nat \<Rightarrow> real"
  random_pos :: nat

definition null_nodes :: BinauralNodes where
  "null_nodes =
     \<lparr>leftOsc = None, rightOsc = None, leftGain = None, rightGain = None,
      noiseSource = None, noiseGain = None, toneGain = None, panNode = None,
      merger = None, delayNode = None, delayGain = None, convolverNode = None,
      reverbGain = None\<rparr>"

text \<open>The state of the first render, before the effect has run.\<close>

definition initial_engine :: "(nat \<Rightarrow> real) \<Rightarrow> engine" where
  "initial_engine rv =
     \<lparr>audioContext = None, analyser = None, binauralNodes = null_nodes,
      drumBuffers = Map.empty, chordOscillators = [], nodes = [],
      random_values = rv, random_pos = 0\<rparr>"

subsection \<open>Platform calls\<close>

definition new_param :: "real \<Rightarrow> AudioParam" where
  "new_param v = \<lparr>param_value = v, events = []\<rparr>"

text \<open>A node as the platform creates it: a sine oscillator at 440 Hz, unit gain, centre pan.\<close>

definition new_node :: "NodeKind \<Rightarrow> AudioNode" where
  "new_node k =
     \<lparr>kind = k, osc_type = Sine, frequency = new_param 440, gain = new_param 1,
      pan = new_param 0, delayTime = new_param 0, buffer = None, loop = False,
      started = False, stopped = False, outputs = [], fftSize = 2048\<rparr>"

definition create_node :: "NodeKind \<Rightarrow> engine \<Rightarrow> nat \<times> engine" where
  "create_node k s = (length (nodes s), s\<lparr>nodes := nodes s @ [new_node k]\<rparr>)"

definition update_node :: "nat \<Rightarrow> (AudioNode \<Rightarrow> AudioNode) \<Rightarrow> engine \<Rightarrow> engine" where
  "update_node i f s = s\<lparr>nodes := (nodes s)[i := f (nodes s ! i)]\<rparr>"

text \<open>\<^verbatim>\<open>p.value = v\<close> and \<^verbatim>\<open>p.setValueAtTime(v, t)\<close>.\<close>

definition set_value :: "real \<Rightarrow> AudioParam \<Rightarrow> AudioParam" where
  "set_value v p = p\<lparr>param_value := v\<rparr>"

definition setValueAtTime :: "real \<Rightarrow> real \<Rightarrow> AudioParam \<Rightarrow> AudioParam" where
  "setValueAtTime v t p = p\<lparr>events := events p @ [SetValueAtTime v t]\<rparr>"

text \<open>\<^verbatim>\<open>a.connect(b, output, input)\<close>; \<^verbatim>\<open>a.connect(b)\<close> is \<^verbatim>\<open>a.connect(b, 0, 0)\<close>.\<close>

definition connect :: "nat \<Rightarrow> nat \<Rightarrow> nat \<Rightarrow> nat \<Rightarrow> engine \<Rightarrow> engine" where
  "connect a b out inp s = update_node a (\<lambda>n. n\<lparr>outputs := outputs n @ [(b, out, inp)]\<rparr>) s"

text \<open>\<^verbatim>\<open>a.disconnect()\<close> removes every connection made from \<open>a\<close>.\<close>

definition disconnect :: "nat \<Rightarrow> engine \<Rightarrow> engine" where
  "disconnect a s = update_node a (\<lambda>n. n\<lparr>outputs := []\<rparr>) s"

definition start_node :: "nat \<Rightarrow> engine \<Rightarrow> error + engine" where
  "start_node a s =
     (if started (nodes s ! a) then Inl InvalidStateError
      else Inr (update_node a (\<lambda>n. n\<lparr>started := True\<rparr>) s))"

definition stop_node :: "nat \<Rightarrow> engine \<Rightarrow> error + engine" where
  "stop_node a s =
     (if \<not> started (nodes s ! a) then Inl InvalidStateError
      else Inr (update_node a (\<lambda>n. n\<lparr>stopped := True\<rparr>) s))"

text \<open>Sequencing of calls that can raise: the first exception ends the function.\<close>

definition and_then :: "error + 'a \<Rightarrow> ('a \<Rightarrow> error + 'b) \<Rightarrow> error + 'b" where
  "and_then r f = (case r of Inl e \<Rightarrow> Inl e | Inr x \<Rightarrow> f x)"

text \<open>\<^verbatim>\<open>Math.random()\<close>.\<close>

definition Math_random :: "engine \<Rightarrow> real \<times> engine" where
  "Math_random s = (random_values s (random_pos s), s\<lparr>random_pos := random_pos s + 1\<rparr>)"

subsection \<open>Double-precision arithmetic\<close>

text \<open>
  The value of a real number as an IEEE 754 double (binary64), rounded to nearest, ties
  to even: a double is an integer multiple of \<open>2 powr (e - 52)\<close> where \<open>e\<close> is the exponent
  of the number, at least \<open>-1022\<close> (below that the doubles are subnormal, with the spacing
  of exponent \<open>-1022\<close>). Overflow to infinity is left out: the levels of the noise mix are
  far from it. An operation of the source on numbers, \<^verbatim>\<open>x * y\<close> or \<^verbatim>\<open>x - y\<close>, is the exact
  operation followed by \<open>double\<close>, and a literal \<^verbatim>\<open>0.3\<close> is \<open>double 0.3\<close>.
\<close>

definition round_half_even :: "real \<Rightarrow> int" where
  "round_half_even y =
     (let f = \<lfloor>y\<rfloor>; r = y - of_int f
      in if r < 1 / 2 then f else if 1 / 2 < r then f + 1 else if even f then f else f + 1)"

definition exponent :: "real \<Rightarrow> int" where
  "exponent x = max \<lfloor>log 2 \<bar>x\<bar>\<rfloor> (- 1022)"

definition double :: "real \<Rightarrow> real" where
  "double x =
     (if x = 0 then 0
      else of_int (round_half_even (x * 2 powr (52 - of_int (exponent x))))
             * 2 powr (of_int (exponent x) - 52))"

subsection \<open>Semitones to frequencies\<close>

text \<open>
  \<^verbatim>\<open>
  const semitoneToFrequency = (semitone: number, octave: number) => {
    const baseFreq = 261.63 // C4
    const octaveMultiplier = Math.pow(2, octave - 4)
    return baseFreq * Math.pow(2, semitone / 12) * octaveMultiplier
  }
  \<close>
\<close>

definition semitoneToFrequency :: "real \<Rightarrow> real \<Rightarrow> real" where
  "semitoneToFrequency semitone octave =
     (let baseFreq = 261.63;
          octaveMultiplier = 2 powr (octave - 4)
      in baseFreq * 2 powr (semitone / 12) * octaveMultiplier)"

subsection \<open>Buffers and the drum samples\<close>

text \<open>
  \<^verbatim>\<open>ctx.createBuffer(numberOfChannels, length, sampleRate)\<close>: silent channels; the length is
  converted to an unsigned integer, which drops its fraction.
\<close>

definition createBuffer :: "nat \<Rightarrow> real \<Rightarrow> real \<Rightarrow> AudioBuffer" where
  "createBuffer numberOfChannels len rate =
     \<lparr>buffer_sampleRate = rate,
      channelData = replicate numberOfChannels (replicate (nat \<lfloor>len\<rfloor>) 0)\<rparr>"

text \<open>
  \<^verbatim>\<open>buffer.getChannelData(c)\<close> is a view of the channel: the loop's writes \<^verbatim>\<open>data[i] = v\<close>
  land in the buffer. The model reads the channel, runs the loop on it and stores it
  back with \<open>setChannelData\<close>. A write past the end of a typed array is dropped, as
  \<open>data[i := v]\<close> is.
\<close>

definition getChannelData :: "AudioBuffer \<Rightarrow> nat \<Rightarrow> real list" where
  "getChannelData b c = channelData b ! c"

definition setChannelData :: "AudioBuffer \<Rightarrow> nat \<Rightarrow> real list \<Rightarrow> AudioBuffer" where
  "setChannelData b c data = b\<lparr>channelData := (channelData b)[c := data]\<rparr>"

definition createKick :: "AudioContext \<Rightarrow> AudioBuffer" where
  "createKick ctx =
     (let buffer' = createBuffer 1 (sampleRate ctx * 0.5) (sampleRate ctx);
          data = getChannelData buffer' 0;
          data = fold (\<lambda>i data.
                   let envelope = exp (- real i / (sampleRate ctx * 0.1))
                   in data[i := sin (60 * 2 * pi * real i / sampleRate ctx) * envelope * 0.5])
                 [0..<length data] data
      in setChannelData buffer' 0 data)"

definition createSnare :: "AudioContext \<Rightarrow> engine \<Rightarrow> AudioBuffer \<times> engine" where
  "createSnare ctx s =
     (let buffer' = createBuffer 1 (sampleRate ctx * 0.2) (sampleRate ctx);
          data = getChannelData buffer' 0;
          (data, s) = fold (\<lambda>i (data, s).
                   let envelope = exp (- real i / (sampleRate ctx * 0.05));
                       (r, s) = Math_random s;
                       noise = (r * 2 - 1) * 0.3;
                       tone = sin (200 * 2 * pi * real i / sampleRate ctx) * 0.2
                   in (data[i := (noise + tone) * envelope], s))
                 [0..<length data] (data, s)
      in (setChannelData buffer' 0 data, s))"

definition createHihat :: "AudioContext \<Rightarrow> engine \<Rightarrow> AudioBuffer \<times> engine" where
  "createHihat ctx s =
     (let buffer' = createBuffer 1 (sampleRate ctx * 0.1) (sampleRate ctx);
          data = getChannelData buffer' 0;
          (data, s) = fold (\<lambda>i (data, s).
                   let envelope = exp (- real i / (sampleRate ctx * 0.02));
                       (r, s) = Math_random s
                   in (data[i := (r * 2 - 1) * envelope * 0.3], s))
                 [0..<length data] (data, s)
      in (setChannelData buffer' 0 data, s))"

definition loadDrumSamples :: "AudioContext \<Rightarrow> engine \<Rightarrow> engine" where
  "loadDrumSamples ctx s =
     (let kick = createKick ctx;
          s = s\<lparr>drumBuffers := (drumBuffers s)(''kick'' \<mapsto> kick)\<rparr>;
          (snare, s) = createSnare ctx s;
          s = s\<lparr>drumBuffers := (drumBuffers s)(''snare'' \<mapsto> snare)\<rparr>;
          (hihat, s) = createHihat ctx s;
          s = s\<lparr>drumBuffers := (drumBuffers s)(''hihat'' \<mapsto> hihat)\<rparr>
      in s)"

text \<open>
  The inner loop of \<open>createWhiteNoise\<close> runs while \<^verbatim>\<open>i < bufferSize\<close>, a number that need
  not be whole: it runs for the naturals below \<open>\<lceil>bufferSize\<rceil>\<close>.
\<close>

definition createWhiteNoise :: "AudioContext \<Rightarrow> engine \<Rightarrow> AudioBuffer \<times> engine" where
  "createWhiteNoise context' s =
     (let bufferSize = sampleRate context' * 2;
          buffer' = createBuffer 2 bufferSize (sampleRate context')
      in fold (\<lambda>channel (buffer', s).
           let channelData' = getChannelData buffer' channel;
               (channelData', s) =
                  fold (\<lambda>i (channelData', s).
                          let (r, s) = Math_random s
                          in (channelData'[i := r * 2 - 1], s))
                    [0..<nat \<lceil>bufferSize\<rceil>] (channelData', s)
           in (setChannelData buffer' channel channelData', s))
         [0..<2] (buffer', s))"

subsection \<open>The effect that creates the context\<close>

text \<open>
  The effect runs once after the first render: it creates the context (whose sample rate
  the platform chooses) and the analyser, connects the analyser to the destination,
  stores both in the state and loads the drum samples.
\<close>

definition useEffect_mount :: "real \<Rightarrow> engine \<Rightarrow> engine" where
  "useEffect_mount rate s =
     (let (dest, s) = create_node AudioDestinationNode s;
          ctx = \<lparr>sampleRate = rate, currentTime = 0, destination = dest\<rparr>;
          (analyserNode, s) = create_node AnalyserNode s;
          s = update_node analyserNode (\<lambda>n. n\<lparr>fftSize := 2048\<rparr>) s;
          s = connect analyserNode (destination ctx) 0 0 s;
          s = s\<lparr>audioContext := Some ctx\<rparr>;
          s = s\<lparr>analyser := Some analyserNode\<rparr>
      in loadDrumSamples ctx s)"

subsection \<open>The binaural session\<close>

text \<open>\<^verbatim>\<open>if (x) { x.stop(); x.disconnect() }\<close> and \<^verbatim>\<open>if (x) x.disconnect()\<close>.\<close>

definition stop_and_disconnect_if :: "nat option \<Rightarrow> engine \<Rightarrow> error + engine" where
  "stop_and_disconnect_if x s =
     (case x of
        None \<Rightarrow> Inr s
      | Some a \<Rightarrow> and_then (stop_node a s) (\<lambda>s. Inr (disconnect a s)))"

definition disconnect_if :: "nat option \<Rightarrow> engine \<Rightarrow> engine" where
  "disconnect_if x s = (case x of None \<Rightarrow> s | Some a \<Rightarrow> disconnect a s)"

definition stopBinaural :: "engine \<Rightarrow> error + engine" where
  "stopBinaural s =
     (let h = binauralNodes s in
      and_then (stop_and_disconnect_if (leftOsc h) s) (\<lambda>s.
      and_then (stop_and_disconnect_if (rightOsc h) s) (\<lambda>s.
      and_then (stop_and_disconnect_if (noiseSource h) s) (\<lambda>s.
        let s = disconnect_if (leftGain h) s;
            s = disconnect_if (rightGain h) s;
            s = disconnect_if (noiseGain h) s;
            s = disconnect_if (toneGain h) s;
            s = disconnect_if (panNode h) s;
            s = disconnect_if (merger h) s;
            s = disconnect_if (delayNode h) s;
            s = disconnect_if (delayGain h) s;
            s = disconnect_if (convolverNode h) s;
            s = disconnect_if (reverbGain h) s
        in Inr (s\<lparr>binauralNodes := null_nodes\<rparr>)))))"

definition startBinaural ::
  "real \<Rightarrow> real \<Rightarrow> real \<Rightarrow> real \<Rightarrow> OscillatorType \<Rightarrow> engine \<Rightarrow> error + engine" where
  "startBinaural baseFreq beatFreq noiseMix panValue waveform s =
     (case audioContext s of None \<Rightarrow> Inr s | Some ctx \<Rightarrow>
     (case analyser s of None \<Rightarrow> Inr s | Some analyser' \<Rightarrow>
      and_then (stopBinaural s) (\<lambda>s.
        let (merger', s) = create_node ChannelMergerNode s;
            (leftOsc', s) = create_node OscillatorNode s;
            (rightOsc', s) = create_node OscillatorNode s;
            (leftGain', s) = create_node GainNode s;
            (rightGain', s) = create_node GainNode s;
            (toneGain', s) = create_node GainNode s;
            (noiseGain', s) = create_node GainNode s;
            (panNode', s) = create_node StereoPannerNode s;
            (delayNode', s) = create_node DelayNode s;
            (delayGain', s) = create_node GainNode s;
            (convolverNode', s) = create_node ConvolverNode s;
            (reverbGain', s) = create_node GainNode s;
            s = update_node leftOsc' (\<lambda>n. n\<lparr>osc_type := waveform\<rparr>) s;
            s = update_node rightOsc' (\<lambda>n. n\<lparr>osc_type := waveform\<rparr>) s;
            s = update_node leftOsc' (\<lambda>n. n\<lparr>frequency := set_value baseFreq (frequency n)\<rparr>) s;
            s = update_node rightOsc'
                  (\<lambda>n. n\<lparr>frequency := set_value (baseFreq + beatFreq) (frequency n)\<rparr>) s;
            (noiseBuffer, s) = createWhiteNoise ctx s;
            (noiseSource', s) = create_node AudioBufferSourceNode s;
            s = update_node noiseSource' (\<lambda>n. n\<lparr>buffer := Some noiseBuffer\<rparr>) s;
            s = update_node noiseSource' (\<lambda>n. n\<lparr>loop := True\<rparr>) s;
            toneLevel = double (double (1 - noiseMix) * double 0.3);
            noiseLevel = double (noiseMix * double 0.3);
            s = update_node leftGain' (\<lambda>n. n\<lparr>gain := set_value 1 (gain n)\<rparr>) s;
            s = update_node rightGain' (\<lambda>n. n\<lparr>gain := set_value 1 (gain n)\<rparr>) s;
            s = update_node toneGain' (\<lambda>n. n\<lparr>gain := set_value toneLevel (gain n)\<rparr>) s;
            s = update_node noiseGain' (\<lambda>n. n\<lparr>gain := set_value noiseLevel (gain n)\<rparr>) s;
            s = update_node panNode' (\<lambda>n. n\<lparr>pan := set_value panValue (pan n)\<rparr>) s;
            s = update_node delayNode' (\<lambda>n. n\<lparr>delayTime := set_value 0.3 (delayTime n)\<rparr>) s;
            s = update_node delayGain' (\<lambda>n. n\<lparr>gain := set_value 0 (gain n)\<rparr>) s;
            s = update_node reverbGain' (\<lambda>n. n\<lparr>gain := set_value 0 (gain n)\<rparr>) s;
            s = connect leftOsc' leftGain' 0 0 s;
            s = connect rightOsc' rightGain' 0 0 s;
            s = connect leftGain' toneGain' 0 0 s;
            s = connect rightGain' toneGain' 0 0 s;
            s = connect toneGain' merger' 0 0 s;
            s = connect toneGain' merger' 0 1 s;
            s = connect noiseSource' noiseGain' 0 0 s;
            s = connect noiseGain' merger' 0 0 s;
            s = connect noiseGain' merger' 0 1 s;
            s = connect merger' delayNode' 0 0 s;
            s = connect delayNode' delayGain' 0 0 s;
            s = connect delayGain' merger' 0 0 s;
            s = connect merger' panNode' 0 0 s;
            s = connect panNode' analyser' 0 0 s
        in and_then (start_node leftOsc' s) (\<lambda>s.
           and_then (start_node rightOsc' s) (\<lambda>s.
           and_then (start_node noiseSource' s) (\<lambda>s.
             Inr (s\<lparr>binauralNodes :=
                    \<lparr>leftOsc = Some leftOsc', rightOsc = Some rightOsc',
                     leftGain = Some leftGain', rightGain = Some rightGain',
                     noiseSource = Some noiseSource', noiseGain = Some noiseGain',
                     toneGain = Some toneGain', panNode = Some panNode',
                     merger = Some merger', delayNode = Some delayNode',
                     delayGain = Some delayGain', convolverNode = Some convolverNode',
                     reverbGain = Some reverbGain'\<rparr>\<rparr>)))))))"

definition updateBinauralFrequencies :: "real \<Rightarrow> real \<Rightarrow> engine \<Rightarrow> error + engine" where
  "updateBinauralFrequencies baseFreq beatFreq s =
     (case (leftOsc (binauralNodes s), rightOsc (binauralNodes s), audioContext s) of
        (Some leftOsc', Some rightOsc', Some ctx) \<Rightarrow>
          let s = update_node leftOsc'
                    (\<lambda>n. n\<lparr>frequency := setValueAtTime baseFreq (currentTime ctx) (frequency n)\<rparr>) s;
              s = update_node rightOsc'
                    (\<lambda>n. n\<lparr>frequency :=
                              setValueAtTime (baseFreq + beatFreq) (currentTime ctx) (frequency n)\<rparr>) s
          in Inr s
      | _ \<Rightarrow> Inr s)"

definition updateNoiseMix :: "real \<Rightarrow> engine \<Rightarrow> error + engine" where
  "updateNoiseMix mix s =
     (case (noiseGain (binauralNodes s), toneGain (binauralNodes s), audioContext s) of
        (Some noiseGain', Some toneGain', Some ctx) \<Rightarrow>
          let toneLevel = double (double (1 - mix) * double 0.3);
              noiseLevel = double (mix * double 0.3);
              s = update_node toneGain'
                    (\<lambda>n. n\<lparr>gain := setValueAtTime toneLevel (currentTime ctx) (gain n)\<rparr>) s;
              s = update_node noiseGain'
                    (\<lambda>n. n\<lparr>gain := setValueAtTime noiseLevel (currentTime ctx) (gain n)\<rparr>) s
          in Inr s
      | _ \<Rightarrow> Inr s)"

definition updatePanning :: "real \<Rightarrow> engine \<Rightarrow> error + engine" where
  "updatePanning panValue s =
     (case (panNode (binauralNodes s), audioContext s) of
        (Some panNode', Some ctx) \<Rightarrow>
          Inr (update_node panNode'
                 (\<lambda>n. n\<lparr>pan := setValueAtTime panValue (currentTime ctx) (pan n)\<rparr>) s)
      | _ \<Rightarrow> Inr s)"

definition updateWaveform :: "OscillatorType \<Rightarrow> engine \<Rightarrow> error + engine" where
  "updateWaveform waveform s =
     (case (leftOsc (binauralNodes s), rightOsc (binauralNodes s)) of
        (Some leftOsc', Some rightOsc') \<Rightarrow>
          let s = update_node leftOsc' (\<lambda>n. n\<lparr>osc_type := waveform\<rparr>) s;
              s = update_node rightOsc' (\<lambda>n. n\<lparr>osc_type := waveform\<rparr>) s
          in Inr s
      | _ \<Rightarrow> Inr s)"

subsection \<open>Chords\<close>

text \<open>
  The body of \<^verbatim>\<open>chordOscillators.current.forEach\<close> in \<open>stopChord\<close>: an exception of
  \<^verbatim>\<open>osc.stop()\<close> is caught, and then \<^verbatim>\<open>osc.disconnect()\<close> is not reached.
\<close>

fun stopChord_forEach :: "nat list \<Rightarrow> engine \<Rightarrow> engine" where
  "stopChord_forEach [] s = s"
| "stopChord_forEach (osc # rest) s =
     stopChord_forEach rest
       (case and_then (stop_node osc s) (\<lambda>s. Inr (disconnect osc s)) of
          Inl e \<Rightarrow> s
        | Inr s' \<Rightarrow> s')"

definition stopChord :: "engine \<Rightarrow> error + engine" where
  "stopChord s = Inr ((stopChord_forEach (chordOscillators s) s)\<lparr>chordOscillators := []\<rparr>)"

text \<open>
  The body of \<^verbatim>\<open>notes.forEach\<close> in \<open>playChord\<close>; \<open>len\<close> is \<^verbatim>\<open>notes.length\<close>, the length of
  the whole list.
\<close>

fun playChord_forEach :: "nat \<Rightarrow> real \<Rightarrow> nat \<Rightarrow> real list \<Rightarrow> engine \<Rightarrow> error + engine" where
  "playChord_forEach chordGain octave len [] s = Inr s"
| "playChord_forEach chordGain octave len (semitone # rest) s =
     (let (osc, s) = create_node OscillatorNode s;
          (noteGain, s) = create_node GainNode s;
          s = update_node osc (\<lambda>n. n\<lparr>osc_type := Sine\<rparr>) s;
          s = update_node osc
                (\<lambda>n. n\<lparr>frequency := set_value (semitoneToFrequency semitone octave) (frequency n)\<rparr>) s;
          s = update_node noteGain (\<lambda>n. n\<lparr>gain := set_value (1 / real len) (gain n)\<rparr>) s;
          s = connect osc noteGain 0 0 s;
          s = connect noteGain chordGain 0 0 s
      in and_then (start_node osc s) (\<lambda>s.
           playChord_forEach chordGain octave len rest
             (s\<lparr>chordOscillators := chordOscillators s @ [osc]\<rparr>)))"

definition playChord :: "real list \<Rightarrow> real \<Rightarrow> real \<Rightarrow> engine \<Rightarrow> error + engine" where
  "playChord notes octave volume s =
     (case audioContext s of None \<Rightarrow> Inr s | Some ctx \<Rightarrow>
     (case analyser s of None \<Rightarrow> Inr s | Some analyser' \<Rightarrow>
      and_then (stopChord s) (\<lambda>s.
        let (chordGain, s) = create_node GainNode s;
            s = update_node chordGain (\<lambda>n. n\<lparr>gain := set_value (volume * 0.2) (gain n)\<rparr>) s;
            s = connect chordGain analyser' 0 0 s
        in playChord_forEach chordGain octave (length notes) notes s)))"

subsection \<open>Drum hits\<close>

definition playDrumSound :: "string \<Rightarrow> engine \<Rightarrow> error + engine" where
  "playDrumSound drumType s =
     (case audioContext s of None \<Rightarrow> Inr s | Some ctx \<Rightarrow>
     (case analyser s of None \<Rightarrow> Inr s | Some analyser' \<Rightarrow>
     (case drumBuffers s drumType of None \<Rightarrow> Inr s | Some buffer' \<Rightarrow>
        let (source, s) = create_node AudioBufferSourceNode s;
            (gain', s) = create_node GainNode s;
            s = update_node source (\<lambda>n. n\<lparr>buffer := Some buffer'\<rparr>) s;
            s = update_node gain' (\<lambda>n. n\<lparr>gain := set_value 0.5 (gain n)\<rparr>) s;
            s = connect source gain' 0 0 s;
            s = connect gain' analyser' 0 0 s
        in start_node source s)))"

subsection \<open>The graph of a session, written out\<close>

text \<open>
  What \<open>createWhiteNoise\<close> and \<open>startBinaural\<close> leave behind, as closed terms: the
  noise buffer filled from the random sequence at position \<open>p\<close>, the thirteen nodes of a
  session whose first node has id \<open>n\<close> and whose panner feeds the analyser \<open>a\<close>, and the
  handle that refers to them. The lemmas \<open>createWhiteNoise_eq\<close> and
  \<open>startBinaural_after_stop\<close> below prove that the functions compute exactly these.
\<close>

definition white_noise :: "AudioContext \<Rightarrow> (nat \<Rightarrow> real) \<Rightarrow> nat \<Rightarrow> AudioBuffer" where
  "white_noise ctx rv p =
     \<lparr>buffer_sampleRate = sampleRate ctx,
      channelData =
        [map (\<lambda>i. rv (p + i) * 2 - 1) [0..<nat \<lfloor>sampleRate ctx * 2\<rfloor>],
         map (\<lambda>i. rv (p + nat \<lceil>sampleRate ctx * 2\<rceil> + i) * 2 - 1) [0..<nat \<lfloor>sampleRate ctx * 2\<rfloor>]]\<rparr>"

definition session_handle :: "nat \<Rightarrow> BinauralNodes" where
  "session_handle n =
     \<lparr>leftOsc = Some (n + 1), rightOsc = Some (n + 2),
      leftGain = Some (n + 3), rightGain = Some (n + 4),
      noiseSource = Some (n + 12), noiseGain = Some (n + 6),
      toneGain = Some (n + 5), panNode = Some (n + 7),
      merger = Some n, delayNode = Some (n + 8),
      delayGain = Some (n + 9), convolverNode = Some (n + 10),
      reverbGain = Some (n + 11)\<rparr>"

definition session_graph ::
  "nat \<Rightarrow> nat \<Rightarrow> real \<Rightarrow> real \<Rightarrow> real \<Rightarrow> real \<Rightarrow> OscillatorType \<Rightarrow> AudioBuffer \<Rightarrow> AudioNode list" where
  "session_graph n a baseFreq beatFreq noiseMix panValue waveform noiseBuffer =
     [(new_node ChannelMergerNode)\<lparr>outputs := [(n + 8, 0, 0), (n + 7, 0, 0)]\<rparr>,
      (new_node OscillatorNode)
        \<lparr>osc_type := waveform, frequency := \<lparr>param_value = baseFreq, events = []\<rparr>,
         started := True, outputs := [(n + 3, 0, 0)]\<rparr>,
      (new_node OscillatorNode)
        \<lparr>osc_type := waveform, frequency := \<lparr>param_value = baseFreq + beatFreq, events = []\<rparr>,
         started := True, outputs := [(n + 4, 0, 0)]\<rparr>,
      (new_node GainNode)\<lparr>gain := \<lparr>param_value = 1, events = []\<rparr>, outputs := [(n + 5, 0, 0)]\<rparr>,
      (new_node GainNode)\<lparr>gain := \<lparr>param_value = 1, events = []\<rparr>, outputs := [(n + 5, 0, 0)]\<rparr>,
      (new_node GainNode)
        \<lparr>gain := \<lparr>param_value = double (double (1 - noiseMix) * double 0.3), events = []\<rparr>,
         outputs := [(n, 0, 0), (n, 0, 1)]\<rparr>,
      (new_node GainNode)
        \<lparr>gain := \<lparr>param_value = double (noiseMix * double 0.3), events = []\<rparr>,
         outputs := [(n, 0, 0), (n, 0, 1)]\<rparr>,
      (new_node StereoPannerNode)
        \<lparr>pan := \<lparr>param_value = panValue, events = []\<rparr>, outputs := [(a, 0, 0)]\<rparr>,
      (new_node DelayNode)
        \<lparr>delayTime := \<lparr>param_value = 0.3, events = []\<rparr>, outputs := [(n + 9, 0, 0)]\<rparr>,
      (new_node GainNode)\<lparr>gain := \<lparr>param_value = 0, events = []\<rparr>, outputs := [(n, 0, 0)]\<rparr>,
      new_node ConvolverNode,
      (new_node GainNode)\<lparr>gain := \<lparr>param_value = 0, events = []\<rparr>\<rparr>,
      (new_node AudioBufferSourceNode)
        \<lparr>buffer := Some noiseBuffer, loop := True, started := True,
         outputs := [(n + 6, 0, 0)]\<rparr>]"

subsection \<open>The hook's interface and the states it can reach\<close>

text \<open>
  The functions the hook returns, as calls; \<open>api_call\<close> runs one. A state is reachable
  when it is the state of the first render, or comes from a reachable one by the effect
  (which runs while no context exists), by a call that returns, or by the audio clock
  moving on.
\<close>

datatype call =
    StartBinaural real real real real OscillatorType
  | StopBinaural
  | UpdateBinauralFrequencies real real
  | UpdateNoiseMix real
  | UpdatePanning real
  | UpdateWaveform OscillatorType
  | PlayDrumSound string
  | PlayChord "real list" real real
  | StopChord

fun api_call :: "call \<Rightarrow> engine \<Rightarrow> error + engine" where
  "api_call (StartBinaural baseFreq beatFreq noiseMix panValue waveform) s =
     startBinaural baseFreq beatFreq noiseMix panValue waveform s"
| "api_call StopBinaural s = stopBinaural s"
| "api_call (UpdateBinauralFrequencies baseFreq beatFreq) s =
     updateBinauralFrequencies baseFreq beatFreq s"
| "api_call (UpdateNoiseMix mix) s = updateNoiseMix mix s"
| "api_call (UpdatePanning panValue) s = updatePanning panValue s"
| "api_call (UpdateWaveform waveform) s = updateWaveform waveform s"
| "api_call (PlayDrumSound drumType) s = playDrumSound drumType s"
| "api_call (PlayChord notes octave volume) s = playChord notes octave volume s"
| "api_call StopChord s = stopChord s"

inductive reachable :: "engine \<Rightarrow> bool" where
  first_render: "reachable (initial_engine rv)"
| effect: "reachable s \<Longrightarrow> audioContext s = None \<Longrightarrow> reachable (useEffect_mount rate s)"
| called: "reachable s \<Longrightarrow> api_call c s = Inr s' \<Longrightarrow> reachable s'"
| clock: "reachable s \<Longrightarrow> audioContext s = Some ctx \<Longrightarrow> currentTime ctx \<le> t \<Longrightarrow>
          reachable (s\<lparr>audioContext := Some (ctx\<lparr>currentTime := t\<rparr>)\<rparr>)"

text \<open>
  The invariant of the reachable states: the handle is empty, or it refers to the thirteen
  nodes of one session, all in the store, whose three sources have been started; and every
  chord oscillator is in the store and has been started.
\<close>

definition handle_ok :: "engine \<Rightarrow> bool" where
  "handle_ok s =
     (case merger (binauralNodes s) of
        None \<Rightarrow> binauralNodes s = null_nodes
      | Some n \<Rightarrow>
          binauralNodes s = session_handle n \<and> n + 13 \<le> length (nodes s) \<and>
          started (nodes s ! (n + 1)) \<and> started (nodes s ! (n + 2)) \<and>
          started (nodes s ! (n + 12)))"

definition chords_ok :: "engine \<Rightarrow> bool" where
  "chords_ok s =
     list_all (\<lambda>i. i < length (nodes s) \<and> started (nodes s ! i)) (chordOscillators s)"

text \<open>
  How a call changes the store: it never shrinks, and a source once started stays started.
\<close>

definition grows :: "engine \<Rightarrow> engine \<Rightarrow> bool" where
  "grows s s' =
     (length (nodes s) \<le> length (nodes s') \<and>
      list_all (\<lambda>i. started (nodes s ! i) \<longrightarrow> started (nodes s' ! i)) [0..<length (nodes s)])"

text \<open>
  The store after \<open>stopBinaural\<close> on a session whose first node is \<open>n\<close>: its thirteen nodes have
  no connection left, and its three sources are stopped.
\<close>

definition retire :: "nat \<Rightarrow> AudioNode list \<Rightarrow> AudioNode list" where
  "retire n xs =
     map (\<lambda>i. if n \<le> i \<and> i < n + 13
              then (xs ! i)\<lparr>stopped := stopped (xs ! i) \<or> i \<in> {n + 1, n + 2, n + 12}, outputs := []\<rparr>
              else xs ! i)
       [0..<length xs]"

text \<open>The store after \<open>stopBinaural\<close>, with or without a session.\<close>

definition stopped_store :: "engine \<Rightarrow> AudioNode list" where
  "stopped_store s =
     (case merger (binauralNodes s) of None \<Rightarrow> nodes s | Some n \<Rightarrow> retire n (nodes s))"

text \<open>
  The three envelope formulas of the specification, as functions of the time \<open>t\<close> in
  seconds (and, for snare and hi-hat, of the noise value of the sample).
\<close>

definition kick_amplitude :: "real \<Rightarrow> real" where
  "kick_amplitude t = sin (2 * pi * 60 * t) * exp (- t / 0.1) * 0.5"

definition snare_amplitude :: "real \<Rightarrow> real \<Rightarrow> real" where
  "snare_amplitude noise t = (noise * 0.3 + sin (2 * pi * 200 * t) * 0.2) * exp (- t / 0.05)"

definition hihat_amplitude :: "real \<Rightarrow> real \<Rightarrow> real" where
  "hihat_amplitude noise t = noise * exp (- t / 0.02) * 0.3"

text \<open>The three drum buffers of a context, the noise read from position \<open>p\<close> on.\<close>

definition kick_buffer :: "AudioContext \<Rightarrow> AudioBuffer" where
  "kick_buffer ctx =
     \<lparr>buffer_sampleRate = sampleRate ctx,
      channelData = [map (\<lambda>i. kick_amplitude (real i / sampleRate ctx))
                       [0..<nat \<lfloor>sampleRate ctx * 0.5\<rfloor>]]\<rparr>"

definition snare_buffer :: "AudioContext \<Rightarrow> (nat \<Rightarrow> real) \<Rightarrow> nat \<Rightarrow> AudioBuffer" where
  "snare_buffer ctx rv p =
     \<lparr>buffer_sampleRate = sampleRate ctx,
      channelData = [map (\<lambda>i. snare_amplitude (rv (p + i) * 2 - 1) (real i / sampleRate ctx))
                       [0..<nat \<lfloor>sampleRate ctx * 0.2\<rfloor>]]\<rparr>"

definition hihat_buffer :: "AudioContext \<Rightarrow> (nat \<Rightarrow> real) \<Rightarrow> nat \<Rightarrow> AudioBuffer" where
  "hihat_buffer ctx rv p =
     \<lparr>buffer_sampleRate = sampleRate ctx,
      channelData = [map (\<lambda>i. hihat_amplitude (rv (p + i) * 2 - 1) (real i / sampleRate ctx))
                       [0..<nat \<lfloor>sampleRate ctx * 0.1\<rfloor>]]\<rparr>"

text \<open>
  The voices \<open>playChord\<close> creates for a list of notes, the first of them with id \<open>m\<close>: for
  each note an oscillator and its gain; and the ids of the oscillators.
\<close>

fun chord_voices :: "nat \<Rightarrow> real \<Rightarrow> nat \<Rightarrow> nat \<Rightarrow> real list \<Rightarrow> AudioNode list" where
  "chord_voices chordGain octave len m [] = []"
| "chord_voices chordGain octave len m (semitone # rest) =
     (new_node OscillatorNode)
        \<lparr>osc_type := Sine,
         frequency := \<lparr>param_value = semitoneToFrequency semitone octave, events = []\<rparr>,
         started := True, outputs := [(m + 1, 0, 0)]\<rparr>
     # (new_node GainNode)
        \<lparr>gain := \<lparr>param_value = 1 / real len, events = []\<rparr>, outputs := [(chordGain, 0, 0)]\<rparr>
     # chord_voices chordGain octave len (m + 2) rest"

fun voice_ids :: "nat \<Rightarrow> nat \<Rightarrow> nat list" where
  "voice_ids m 0 = []"
| "voice_ids m (Suc k) = m # voice_ids (m + 2) k"

text \<open>The store after the loop of \<open>stopChord\<close>.\<close>

definition silenced :: "engine \<Rightarrow> AudioNode list" where
  "silenced s = nodes (stopChord_forEach (chordOscillators s) s)"

text \<open>
  Three states to try the theorems on: the engine after the effect, on a context of ten
  samples a second and a constant random sequence; that engine with a session started;
  and with the session stopped again.
\<close>

definition mounted_engine :: engine where
  "mounted_engine = useEffect_mount 10 (initial_engine (\<lambda>_. 1 / 2))"

definition playing_engine :: engine where
  "playing_engine =
     (case startBinaural 200 4 0 0 Sine mounted_engine of Inr s \<Rightarrow> s | Inl e \<Rightarrow> mounted_engine)"

definition stopped_engine :: engine where
  "stopped_engine =
     (case stopBinaural playing_engine of Inr s \<Rightarrow> s | Inl e \<Rightarrow> playing_engine)"

text \<open>
  The value of a parameter at time \<open>t\<close>: that of the last step scheduled for a time up to
  \<open>t\<close>, and the assigned value when there is none.
\<close>

definition value_at :: "AudioParam \<Rightarrow> real \<Rightarrow> real" where
  "value_at p t =
     fold (\<lambda>e v. case e of SetValueAtTime v' t' \<Rightarrow> if t' \<le> t then v' else v)
       (events p) (param_value p)"

text \<open>
  The drum buffers and the context go together: before the effect there is neither, after
  it the three buffers are those computed from the context's sample rate.
\<close>

definition bank_loaded :: "engine \<Rightarrow> bool" where
  "bank_loaded s =
     (case audioContext s of
        None \<Rightarrow> drumBuffers s = Map.empty
      | Some ctx \<Rightarrow>
          (\<exists>p q. drumBuffers s =
             [''kick'' \<mapsto> kick_buffer ctx,
              ''snare'' \<mapsto> snare_buffer ctx (random_values s) p,
              ''hihat'' \<mapsto> hihat_buffer ctx (random_values s) q]))"

text \<open>The engine after the effect, with the chord of C major held.\<close>

definition chord_engine :: engine where
  "chord_engine =
     (case playChord [0, 4, 7] 4 (1 / 2) mounted_engine of Inr s \<Rightarrow> s | Inl e \<Rightarrow> mounted_engine)"

text \<open>A source that sounds: started, not stopped, and connected to something.\<close>

definition audible :: "AudioNode \<Rightarrow> bool" where
  "audible nd = (started nd \<and> \<not> stopped nd \<and> outputs nd \<noteq> [])"

text \<open>A run of consecutive calls of \<open>startBinaural\<close>, each with its own arguments.\<close>

fun starts :: "(real \<times> real \<times> real \<times> real \<times> OscillatorType) list \<Rightarrow> engine \<Rightarrow> error + engine" where
  "starts [] s = Inr s"
| "starts ((baseFreq, beatFreq, noiseMix, panValue, waveform) # rest) s =
     and_then (startBinaural baseFreq beatFreq noiseMix panValue waveform s) (starts rest)"

text \<open>
  A source that plays: started and not stopped. In the reachable states the sources of the
  handle and the chord oscillators all play, and no chord oscillator is a node of the
  session.
\<close>

definition live :: "AudioNode \<Rightarrow> bool" where
  "live nd = (started nd \<and> \<not> stopped nd)"

definition in_session :: "engine \<Rightarrow> nat \<Rightarrow> bool" where
  "in_session s i =
     (case merger (binauralNodes s) of None \<Rightarrow> False | Some n \<Rightarrow> n \<le> i \<and> i < n + 13)"

definition sources_live :: "engine \<Rightarrow> bool" where
  "sources_live s =
     ((case merger (binauralNodes s) of
         None \<Rightarrow> True
       | Some n \<Rightarrow> live (nodes s ! (n + 1)) \<and> live (nodes s ! (n + 2)) \<and> live (nodes s ! (n + 12)))
      \<and> list_all (\<lambda>i. live (nodes s ! i) \<and> \<not> in_session s i) (chordOscillators s))"

text \<open>
  The engine after the effect and a start with the preset that mixes in 10 % of noise
  (\<^verbatim>\<open>noiseMix / 100\<close> with \<^verbatim>\<open>noiseMix = 10\<close>, the double next to one tenth), and the playing
  engine after its mix is set to the same.
\<close>

definition focus_engine :: engine where
  "focus_engine =
     (case startBinaural 400 14 (double (1 / 10)) 0 Sine mounted_engine of
        Inr s \<Rightarrow> s | Inl e \<Rightarrow> mounted_engine)"

definition remixed_engine :: engine where
  "remixed_engine =
     (case updateNoiseMix (double (1 / 10)) playing_engine of
        Inr s \<Rightarrow> s | Inl e \<Rightarrow> playing_engine)"

text \<open>
  The kinds and the connections of the thirteen nodes of a session, in the order of their
  ids, as \<open>startBinaural\<close> makes them: the oscillators feed their gains, these the tone
  gain, tone and noise gain both inputs of the merger, the merger the delay and the
  panner, the delay its gain and this the merger again, the panner the analyser \<open>a\<close>; the
  convolver and the reverb gain are left unconnected.
\<close>

definition session_kinds :: "NodeKind list" where
  "session_kinds =
     [ChannelMergerNode, OscillatorNode, OscillatorNode, GainNode, GainNode, GainNode, GainNode,
      StereoPannerNode, DelayNode, GainNode, ConvolverNode, GainNode, AudioBufferSourceNode]"

definition session_wiring :: "nat \<Rightarrow> nat \<Rightarrow> (nat \<times> nat \<times> nat) list list" where
  "session_wiring n a =
     [[(n + 8, 0, 0), (n + 7, 0, 0)], [(n + 3, 0, 0)], [(n + 4, 0, 0)], [(n + 5, 0, 0)],
      [(n + 5, 0, 0)], [(n, 0, 0), (n, 0, 1)], [(n, 0, 0), (n, 0, 1)], [(a, 0, 0)],
      [(n + 9, 0, 0)], [(n, 0, 0)], [], [], [(n + 6, 0, 0)]]"

text \<open>
  Two more invariants of the reachable states. The session of the handle is wired as it
  was built, and there is none before the context exists. And the handle owns all that a
  session brings: an oscillator that plays is one of the handle's two or a chord
  oscillator, a looping buffer source that plays is the handle's noise source, and a
  merger, a panner or a delay with a connection is the handle's.
\<close>

definition session_wired :: "engine \<Rightarrow> bool" where
  "session_wired s =
     (case merger (binauralNodes s) of
        None \<Rightarrow> True
      | Some n \<Rightarrow>
          (case analyser s of
             None \<Rightarrow> False
           | Some a \<Rightarrow>
               audioContext s \<noteq> None \<and> loop (nodes s ! (n + 12)) \<and>
               list_all (\<lambda>k. kind (nodes s ! (n + k)) = session_kinds ! k
                            \<and> outputs (nodes s ! (n + k)) = session_wiring n a ! k) [0..<13]))"

definition one_session :: "engine \<Rightarrow> bool" where
  "one_session s =
     list_all
       (\<lambda>i. (kind (nodes s ! i) = OscillatorNode \<and> live (nodes s ! i) \<longrightarrow>
                leftOsc (binauralNodes s) = Some i \<or> rightOsc (binauralNodes s) = Some i
                \<or> i \<in> set (chordOscillators s))
           \<and> (kind (nodes s ! i) = AudioBufferSourceNode \<and> loop (nodes s ! i)
                \<and> live (nodes s ! i) \<longrightarrow> noiseSource (binauralNodes s) = Some i)
           \<and> (kind (nodes s ! i) = ChannelMergerNode \<and> outputs (nodes s ! i) \<noteq> [] \<longrightarrow>
                merger (binauralNodes s) = Some i)
           \<and> (kind (nodes s ! i) = StereoPannerNode \<and> outputs (nodes s ! i) \<noteq> [] \<longrightarrow>
                panNode (binauralNodes s) = Some i)
           \<and> (kind (nodes s ! i) = DelayNode \<and> outputs (nodes s ! i) \<noteq> [] \<longrightarrow>
                delayNode (binauralNodes s) = Some i))
       [0..<length (nodes s)]"

text \<open>
  A node that is out of use: it has no connection, and if it is a source it is stopped.
\<close>

definition retired :: "AudioNode \<Rightarrow> bool" where
  "retired nd =
     (outputs nd = [] \<and> (kind nd = OscillatorNode \<or> kind nd = AudioBufferSourceNode \<longrightarrow> stopped nd))"

text \<open>
  What sounds of binaural sessions: the oscillators that sound and are no chord
  oscillators, the looping buffer sources that sound (a drum hit does not loop), and the
  panners with a connection, through which a session reaches the analyser.
\<close>

definition binaural_oscillators :: "engine \<Rightarrow> nat list" where
  "binaural_oscillators s =
     filter (\<lambda>i. kind (nodes s ! i) = OscillatorNode \<and> audible (nodes s ! i)
                 \<and> i \<notin> set (chordOscillators s)) [0..<length (nodes s)]"

definition noise_sources :: "engine \<Rightarrow> nat list" where
  "noise_sources s =
     filter (\<lambda>i. kind (nodes s ! i) = AudioBufferSourceNode \<and> loop (nodes s ! i)
                 \<and> audible (nodes s ! i)) [0..<length (nodes s)]"

definition panners :: "engine \<Rightarrow> nat list" where
  "panners s =
     filter (\<lambda>i. kind (nodes s ! i) = StereoPannerNode \<and> outputs (nodes s ! i) \<noteq> [])
       [0..<length (nodes s)]"

text \<open>
  Two states of a node that agree in kind, loop flag, state of play and connections: what
  an update of a parameter or of the waveform leaves as it is.
\<close>

definition same_play :: "AudioNode \<Rightarrow> AudioNode \<Rightarrow> bool" where
  "same_play nd' nd =
     (kind nd' = kind nd \<and> loop nd' = loop nd \<and> started nd' = started nd
      \<and> stopped nd' = stopped nd \<and> outputs nd' = outputs nd)"

text \<open>
  The engine with the chord of C major held, after a kick and the start of a session: a
  state with a session in which chord voices and a drum hit sound as well.
\<close>

definition busy_engine :: engine where
  "busy_engine =
     (case and_then (playDrumSound ''kick'' chord_engine) (startBinaural 200 4 0 0 Sine) of
        Inr s \<Rightarrow> s | Inl e \<Rightarrow> chord_engine)"

section \<open>Loops and the result of start\<close>

lemma random_loop:
  "fold (\<lambda>i (d, s). (d[i := e i (random_values s (random_pos s))], s\<lparr>random_pos := Suc (random_pos s)\<rparr>))
     [0..<n] (d, s)
   = (map (\<lambda>i. e i (random_values s (random_pos s + i))) [0..<min n (length d)] @ drop n d,
      s\<lparr>random_pos := random_pos s + n\<rparr>)"
proof (induction n)
  case 0
  then show ?case by simp
next
  case (Suc n)
  show ?case
  proof (cases "n < length d")
    case True
    then have "drop n d = d ! n # drop (Suc n) d"
      by (simp add: Cons_nth_drop_Suc)
    with Suc True show ?thesis
      by (simp add: list_update_append min_def)
  next
    case False
    with Suc show ?thesis
      by (simp add: min_def list_update_beyond)
  qed
qed

lemma createWhiteNoise_eq:
  "createWhiteNoise ctx s =
     (white_noise ctx (random_values s) (random_pos s),
      s\<lparr>random_pos := random_pos s + 2 * nat \<lceil>sampleRate ctx * 2\<rceil>\<rparr>)"
proof -
  define n where "n = nat \<lceil>sampleRate ctx * 2\<rceil>"
  define m where "m = nat \<lfloor>sampleRate ctx * 2\<rfloor>"
  have mn: "m \<le> n" unfolding m_def n_def by linarith
  define B where "B = (\<lambda>(i::nat) (channelData', s).
                          let (r, s) = Math_random s
                          in (channelData'[i := r * 2 - 1], s))"
  have B: "B = (\<lambda>i (d, s). (d[i := random_values s (random_pos s) * 2 - 1], s\<lparr>random_pos := Suc (random_pos s)\<rparr>))"
    by (simp add: B_def Math_random_def fun_eq_iff)
  have inner: "fold B [0..<n] (d, s) = 
      (map (\<lambda>i. random_values s (random_pos s + i) * 2 - 1) [0..<min n (length d)] @ drop n d,
      s\<lparr>random_pos := random_pos s + n\<rparr>)" for d s
    unfolding B by (rule random_loop[where e = "\<lambda>i r. r * 2 - 1"])
  have two: "[0..<2] = [0, Suc 0]" by (simp add: upt_rec numeral_2_eq_2)
  show ?thesis
    unfolding createWhiteNoise_def
    unfolding B_def[symmetric]
    unfolding Let_def two n_def[symmetric] 
    using mn
    by (simp add: inner createBuffer_def m_def[symmetric] getChannelData_def setChannelData_def white_noise_def n_def[symmetric] min_def numeral_2_eq_2)
qed


lemma startBinaural_after_stop:
  assumes "audioContext s = Some ctx" and "analyser s = Some a" and "stopBinaural s = Inr s1"
  shows "startBinaural baseFreq beatFreq noiseMix panValue waveform s =
     Inr (s1\<lparr>nodes := nodes s1 @
               session_graph (length (nodes s1)) a baseFreq beatFreq noiseMix panValue waveform
                 (white_noise ctx (random_values s1) (random_pos s1)),
             random_pos := random_pos s1 + 2 * nat \<lceil>sampleRate ctx * 2\<rceil>,
             binauralNodes := session_handle (length (nodes s1))\<rparr>)"
  using assms
  unfolding startBinaural_def
  apply (simp add: and_then_def create_node_def Let_def createWhiteNoise_eq)
  apply (simp add: update_node_def connect_def start_node_def nth_append list_update_append
       session_handle_def session_graph_def new_node_def new_param_def set_value_def)
  done


section \<open>How calls change the store\<close>

lemma growsI:
  "length (nodes s) \<le> length (nodes s') \<Longrightarrow>
   (\<And>i. i < length (nodes s) \<Longrightarrow> started (nodes s ! i) \<Longrightarrow> started (nodes s' ! i)) \<Longrightarrow>
   grows s s'"
  by (simp add: grows_def list_all_iff)

lemma grows_length: "grows s s' \<Longrightarrow> length (nodes s) \<le> length (nodes s')"
  by (simp add: grows_def)

lemma grows_started:
  "grows s s' \<Longrightarrow> i < length (nodes s) \<Longrightarrow> started (nodes s ! i) \<Longrightarrow> started (nodes s' ! i)"
  by (simp add: grows_def list_all_iff)

lemma grows_refl: "grows s s"
  by (rule growsI) simp_all

lemma grows_in_range: "grows s s' \<Longrightarrow> i < length (nodes s) \<Longrightarrow> i < length (nodes s')"
  by (simp add: grows_def)

lemma grows_trans:
  assumes "grows s s'" and "grows s' s''"
  shows "grows s s''"
proof (rule growsI)
  show "length (nodes s) \<le> length (nodes s'')"
    using assms by (simp add: grows_def)
next
  fix i
  assume i: "i < length (nodes s)" and st: "started (nodes s ! i)"
  from assms(1) i st have "started (nodes s' ! i)" by (rule grows_started)
  moreover from assms(1) i have "i < length (nodes s')" by (rule grows_in_range)
  ultimately show "started (nodes s'' ! i)" using assms(2) by (simp add: grows_started)
qed

lemma grows_update_node:
  assumes "\<And>n. started n \<Longrightarrow> started (f n)"
  shows "grows s (update_node i f s)"
proof (rule growsI)
  show "length (nodes s) \<le> length (nodes (update_node i f s))"
    by (simp add: update_node_def)
next
  fix j
  assume "j < length (nodes s)" and "started (nodes s ! j)"
  then show "started (nodes (update_node i f s) ! j)"
    using assms by (cases "i = j") (simp_all add: update_node_def)
qed

lemma handle_ok_grows:
  assumes ok: "handle_ok s" and g: "grows s s'" and h: "binauralNodes s' = binauralNodes s"
  shows "handle_ok s'"
proof (cases "merger (binauralNodes s)")
  case None
  with ok h show ?thesis by (simp add: handle_ok_def)
next
  case (Some n)
  with ok have n: "binauralNodes s = session_handle n" "n + 13 \<le> length (nodes s)"
    and st: "started (nodes s ! (n + 1))" "started (nodes s ! (n + 2))" "started (nodes s ! (n + 12))"
    by (simp_all add: handle_ok_def)
  from g n(2) have len: "n + 13 \<le> length (nodes s')"
    using grows_length by fastforce
  have "started (nodes s' ! (n + 1))" "started (nodes s' ! (n + 2))" "started (nodes s' ! (n + 12))"
    using g st n(2) by (simp_all add: grows_started)
  with Some h n len show ?thesis by (simp add: handle_ok_def)
qed

lemma chords_ok_grows:
  "chords_ok s \<Longrightarrow> grows s s' \<Longrightarrow> chordOscillators s' = chordOscillators s \<Longrightarrow> chords_ok s'"
  unfolding chords_ok_def list_all_iff
  by (auto intro: grows_in_range grows_started)


section \<open>What stop and start compute\<close>

lemma stopBinaural_null:
  "binauralNodes s = null_nodes \<Longrightarrow> stopBinaural s = Inr s"
  by (simp add: stopBinaural_def null_nodes_def stop_and_disconnect_if_def disconnect_if_def
        and_then_def)

lemma stopBinaural_session:
  assumes h: "binauralNodes s = session_handle n" and len: "n + 13 \<le> length (nodes s)"
    and st: "started (nodes s ! (n + 1))" "started (nodes s ! (n + 2))" "started (nodes s ! (n + 12))"
  shows "stopBinaural s = Inr (s\<lparr>nodes := retire n (nodes s), binauralNodes := null_nodes\<rparr>)"
proof -
  define xs where "xs = nodes s"
  define ys where "ys = xs
            [n + 1 := (xs ! (n + 1))\<lparr>stopped := True, outputs := []\<rparr>,
             n + 2 := (xs ! (n + 2))\<lparr>stopped := True, outputs := []\<rparr>,
             n + 12 := (xs ! (n + 12))\<lparr>stopped := True, outputs := []\<rparr>,
             n + 3 := (xs ! (n + 3))\<lparr>outputs := []\<rparr>,
             n + 4 := (xs ! (n + 4))\<lparr>outputs := []\<rparr>,
             n + 6 := (xs ! (n + 6))\<lparr>outputs := []\<rparr>,
             n + 5 := (xs ! (n + 5))\<lparr>outputs := []\<rparr>,
             n + 7 := (xs ! (n + 7))\<lparr>outputs := []\<rparr>,
             n := (xs ! n)\<lparr>outputs := []\<rparr>,
             n + 8 := (xs ! (n + 8))\<lparr>outputs := []\<rparr>,
             n + 9 := (xs ! (n + 9))\<lparr>outputs := []\<rparr>,
             n + 10 := (xs ! (n + 10))\<lparr>outputs := []\<rparr>,
             n + 11 := (xs ! (n + 11))\<lparr>outputs := []\<rparr>]"
  have run: "stopBinaural s = Inr (s\<lparr>nodes := ys, binauralNodes := null_nodes\<rparr>)"
    using h len st unfolding ys_def xs_def
    by (simp add: stopBinaural_def session_handle_def stop_and_disconnect_if_def disconnect_if_def
        and_then_def stop_node_def disconnect_def update_node_def Let_def)
  have len': "n + 13 \<le> length xs" using len by (simp add: xs_def)
  have "ys = retire n xs"
  proof (rule nth_equalityI)
    show "length ys = length (retire n xs)"
      by (simp add: ys_def retire_def)
  next
    fix i
    assume "i < length ys"
    then have i: "i < length xs" by (simp add: ys_def)
    consider "i < n" | "i \<ge> n + 13" | "i = n" | "i = n + 1" | "i = n + 2" | "i = n + 3" | "i = n + 4"
      | "i = n + 5" | "i = n + 6" | "i = n + 7" | "i = n + 8" | "i = n + 9" | "i = n + 10"
      | "i = n + 11" | "i = n + 12"
      by atomize_elim arith
    then show "ys ! i = retire n xs ! i"
      using i len' by cases (simp_all add: ys_def retire_def)
  qed
  with run show ?thesis by (simp add: xs_def)
qed

lemma length_retire [simp]: "length (retire n xs) = length xs"
  by (simp add: retire_def)

lemma nth_retire:
  "i < length xs \<Longrightarrow>
   retire n xs ! i =
     (if n \<le> i \<and> i < n + 13
      then (xs ! i)\<lparr>stopped := stopped (xs ! i) \<or> i \<in> {n + 1, n + 2, n + 12}, outputs := []\<rparr>
      else xs ! i)"
  by (simp add: retire_def)

lemma started_retire [simp]: "i < length xs \<Longrightarrow> started (retire n xs ! i) = started (xs ! i)"
  by (simp add: nth_retire)

lemma length_stopped_store [simp]: "length (stopped_store s) = length (nodes s)"
  by (simp add: stopped_store_def split: option.splits)

lemma started_stopped_store [simp]:
  "i < length (nodes s) \<Longrightarrow> started (stopped_store s ! i) = started (nodes s ! i)"
  by (simp add: stopped_store_def split: option.splits)

lemma stopBinaural_eq:
  assumes "handle_ok s"
  shows "stopBinaural s = Inr (s\<lparr>nodes := stopped_store s, binauralNodes := null_nodes\<rparr>)"
proof (cases "merger (binauralNodes s)")
  case None
  with assms have "binauralNodes s = null_nodes" by (simp add: handle_ok_def)
  with None show ?thesis by (simp add: stopBinaural_null stopped_store_def)
next
  case (Some n)
  with assms show ?thesis
    by (simp add: handle_ok_def stopBinaural_session stopped_store_def)
qed

lemma startBinaural_eq:
  assumes "handle_ok s" and "audioContext s = Some ctx" and "analyser s = Some a"
  shows "startBinaural baseFreq beatFreq noiseMix panValue waveform s =
     Inr (s\<lparr>nodes := stopped_store s @
               session_graph (length (nodes s)) a baseFreq beatFreq noiseMix panValue waveform
                 (white_noise ctx (random_values s) (random_pos s)),
             random_pos := random_pos s + 2 * nat \<lceil>sampleRate ctx * 2\<rceil>,
             binauralNodes := session_handle (length (nodes s))\<rparr>)"
  using startBinaural_after_stop[OF assms(2,3) stopBinaural_eq[OF assms(1)],
          of baseFreq beatFreq noiseMix panValue waveform]
  by simp

lemma stopBinaural_grows: "handle_ok s \<Longrightarrow> stopBinaural s = Inr s' \<Longrightarrow> grows s s'"
  by (rule growsI) (auto simp: stopBinaural_eq)

lemma startBinaural_grows:
  assumes "handle_ok s" and "startBinaural baseFreq beatFreq noiseMix panValue waveform s = Inr s'"
  shows "grows s s'"
proof (cases "audioContext s")
  case None
  with assms show ?thesis by (simp add: startBinaural_def grows_refl)
next
  case ctx: (Some ctx)
  show ?thesis
  proof (cases "analyser s")
    case None
    with assms ctx show ?thesis by (simp add: startBinaural_def grows_refl)
  next
    case (Some a)
    with assms ctx show ?thesis
      by (intro growsI) (auto simp: startBinaural_eq nth_append)
  qed
qed

lemma startBinaural_handle_ok:
  assumes "handle_ok s" and "startBinaural baseFreq beatFreq noiseMix panValue waveform s = Inr s'"
  shows "handle_ok s'"
proof (cases "audioContext s")
  case None
  with assms show ?thesis by (simp add: startBinaural_def)
next
  case ctx: (Some ctx)
  show ?thesis
  proof (cases "analyser s")
    case None
    with assms ctx show ?thesis by (simp add: startBinaural_def)
  next
    case (Some a)
    with assms ctx show ?thesis
      by (auto simp: startBinaural_eq handle_ok_def session_handle_def nth_append session_graph_def)
  qed
qed

section \<open>The drum samples, the effect and the drum hits\<close>

lemma plain_loop:
  "fold (\<lambda>i d. d[i := e i]) [0..<n] d = map e [0..<min n (length d)] @ drop n d"
proof (induction n)
  case 0
  then show ?case by simp
next
  case (Suc n)
  show ?case
  proof (cases "n < length d")
    case True
    then have "drop n d = d ! n # drop (Suc n) d"
      by (simp add: Cons_nth_drop_Suc)
    with Suc True show ?thesis
      by (simp add: list_update_append min_def)
  next
    case False
    with Suc show ?thesis
      by (simp add: min_def list_update_beyond)
  qed
qed

lemma createKick_eq:
  "createKick ctx =
     \<lparr>buffer_sampleRate = sampleRate ctx,
      channelData = [map (\<lambda>i. kick_amplitude (real i / sampleRate ctx))
                       [0..<nat \<lfloor>sampleRate ctx * 0.5\<rfloor>]]\<rparr>"
proof -
  have body: "(\<lambda>(i::nat) data. let envelope = exp (- real i / (sampleRate ctx * 0.1))
                   in data[i := sin (60 * 2 * pi * real i / sampleRate ctx) * envelope * 0.5])
        = (\<lambda>i d. d[i := kick_amplitude (real i / sampleRate ctx)])"
    by (simp add: fun_eq_iff kick_amplitude_def Let_def mult.commute)
  show ?thesis
    unfolding createKick_def body
    by (simp add: Let_def plain_loop createBuffer_def getChannelData_def setChannelData_def)
qed

lemma createSnare_eq:
  "createSnare ctx s =
     (\<lparr>buffer_sampleRate = sampleRate ctx,
       channelData = [map (\<lambda>i. snare_amplitude (random_values s (random_pos s + i) * 2 - 1)
                                  (real i / sampleRate ctx))
                       [0..<nat \<lfloor>sampleRate ctx * 0.2\<rfloor>]]\<rparr>,
      s\<lparr>random_pos := random_pos s + nat \<lfloor>sampleRate ctx * 0.2\<rfloor>\<rparr>)"
proof -
  have body: "(\<lambda>(i::nat) (data, s).
                   let envelope = exp (- real i / (sampleRate ctx * 0.05));
                       (r, s) = Math_random s;
                       noise = (r * 2 - 1) * 0.3;
                       tone = sin (200 * 2 * pi * real i / sampleRate ctx) * 0.2
                   in (data[i := (noise + tone) * envelope], s))
        = (\<lambda>i (d, s). (d[i := snare_amplitude (random_values s (random_pos s) * 2 - 1) (real i / sampleRate ctx)],
                        s\<lparr>random_pos := Suc (random_pos s)\<rparr>))"
    by (simp add: fun_eq_iff snare_amplitude_def Let_def Math_random_def mult.commute)
  show ?thesis
    unfolding createSnare_def body
    by (simp add: Let_def createBuffer_def getChannelData_def setChannelData_def
          random_loop[where e = "\<lambda>i r. snare_amplitude (r * 2 - 1) (real i / sampleRate ctx)"])
qed

lemma createHihat_eq:
  "createHihat ctx s =
     (\<lparr>buffer_sampleRate = sampleRate ctx,
       channelData = [map (\<lambda>i. hihat_amplitude (random_values s (random_pos s + i) * 2 - 1)
                                  (real i / sampleRate ctx))
                       [0..<nat \<lfloor>sampleRate ctx * 0.1\<rfloor>]]\<rparr>,
      s\<lparr>random_pos := random_pos s + nat \<lfloor>sampleRate ctx * 0.1\<rfloor>\<rparr>)"
proof -
  have body: "(\<lambda>(i::nat) (data, s).
                   let envelope = exp (- real i / (sampleRate ctx * 0.02));
                       (r, s) = Math_random s
                   in (data[i := (r * 2 - 1) * envelope * 0.3], s))
        = (\<lambda>i (d, s). (d[i := hihat_amplitude (random_values s (random_pos s) * 2 - 1) (real i / sampleRate ctx)],
                        s\<lparr>random_pos := Suc (random_pos s)\<rparr>))"
    by (simp add: fun_eq_iff hihat_amplitude_def Let_def Math_random_def mult.commute)
  show ?thesis
    unfolding createHihat_def body
    by (simp add: Let_def createBuffer_def getChannelData_def setChannelData_def
          random_loop[where e = "\<lambda>i r. hihat_amplitude (r * 2 - 1) (real i / sampleRate ctx)"])
qed


lemma loadDrumSamples_eq:
  "loadDrumSamples ctx s =
     s\<lparr>drumBuffers := (drumBuffers s)
          (''kick'' \<mapsto> kick_buffer ctx,
           ''snare'' \<mapsto> snare_buffer ctx (random_values s) (random_pos s),
           ''hihat'' \<mapsto> hihat_buffer ctx (random_values s)
                           (random_pos s + nat \<lfloor>sampleRate ctx * 0.2\<rfloor>)),
       random_pos := random_pos s + nat \<lfloor>sampleRate ctx * 0.2\<rfloor> + nat \<lfloor>sampleRate ctx * 0.1\<rfloor>\<rparr>"
  by (simp add: loadDrumSamples_def Let_def createKick_eq createSnare_eq createHihat_eq
        kick_buffer_def snare_buffer_def hihat_buffer_def)

lemma useEffect_mount_eq:
  "useEffect_mount rate s =
     (let ctx = \<lparr>sampleRate = rate, currentTime = 0, destination = length (nodes s)\<rparr> in
      s\<lparr>audioContext := Some ctx,
        analyser := Some (length (nodes s) + 1),
        nodes := nodes s @ [new_node AudioDestinationNode,
                            (new_node AnalyserNode)\<lparr>outputs := [(length (nodes s), 0, 0)]\<rparr>],
        drumBuffers := (drumBuffers s)
          (''kick'' \<mapsto> kick_buffer ctx,
           ''snare'' \<mapsto> snare_buffer ctx (random_values s) (random_pos s),
           ''hihat'' \<mapsto> hihat_buffer ctx (random_values s)
                           (random_pos s + nat \<lfloor>rate * 0.2\<rfloor>)),
        random_pos := random_pos s + nat \<lfloor>rate * 0.2\<rfloor> + nat \<lfloor>rate * 0.1\<rfloor>\<rparr>)"
  by (simp add: useEffect_mount_def Let_def create_node_def update_node_def connect_def
        loadDrumSamples_eq nth_append new_node_def)

lemma playDrumSound_eq:
  assumes "audioContext s = Some ctx" and "analyser s = Some a" and "drumBuffers s drumType = Some b"
  shows "playDrumSound drumType s =
     Inr (s\<lparr>nodes := nodes s @
              [(new_node AudioBufferSourceNode)
                 \<lparr>buffer := Some b, started := True, outputs := [(length (nodes s) + 1, 0, 0)]\<rparr>,
               (new_node GainNode)
                 \<lparr>gain := \<lparr>param_value = 0.5, events = []\<rparr>, outputs := [(a, 0, 0)]\<rparr>]\<rparr>)"
  using assms
  by (simp add: playDrumSound_def Let_def create_node_def update_node_def connect_def
        start_node_def nth_append list_update_append new_node_def new_param_def set_value_def)

lemma playDrumSound_cases:
  assumes "playDrumSound drumType s = Inr s'"
  shows "s' = s \<or>
    (\<exists>ctx a b. audioContext s = Some ctx \<and> analyser s = Some a \<and> drumBuffers s drumType = Some b \<and>
       s' = s\<lparr>nodes := nodes s @
              [(new_node AudioBufferSourceNode)
                 \<lparr>buffer := Some b, started := True, outputs := [(length (nodes s) + 1, 0, 0)]\<rparr>,
               (new_node GainNode)
                 \<lparr>gain := \<lparr>param_value = 0.5, events = []\<rparr>, outputs := [(a, 0, 0)]\<rparr>]\<rparr>)"
proof (cases "audioContext s = None \<or> analyser s = None \<or> drumBuffers s drumType = None")
  case True
  with assms have "s' = s"
    by (auto simp: playDrumSound_def split: option.splits)
  then show ?thesis ..
next
  case False
  then obtain ctx a b where *: "audioContext s = Some ctx" "analyser s = Some a"
      "drumBuffers s drumType = Some b"
    by auto
  from assms show ?thesis
    unfolding playDrumSound_eq[OF *] using * by simp
qed

lemma playDrumSound_grows: "playDrumSound drumType s = Inr s' \<Longrightarrow> grows s s'"
  by (drule playDrumSound_cases) (auto intro!: growsI simp: nth_append)

lemma playDrumSound_fields:
  "playDrumSound drumType s = Inr s' \<Longrightarrow>
   binauralNodes s' = binauralNodes s \<and> chordOscillators s' = chordOscillators s"
  by (drule playDrumSound_cases) auto

section \<open>The updates and the chords\<close>

lemma update_node_fields [simp]:
  "audioContext (update_node i f s) = audioContext s"
  "analyser (update_node i f s) = analyser s"
  "binauralNodes (update_node i f s) = binauralNodes s"
  "drumBuffers (update_node i f s) = drumBuffers s"
  "chordOscillators (update_node i f s) = chordOscillators s"
  "random_values (update_node i f s) = random_values s"
  "random_pos (update_node i f s) = random_pos s"
  "length (nodes (update_node i f s)) = length (nodes s)"
  by (simp_all add: update_node_def)

lemma update_node_twice:
  "update_node i f (update_node i g s) = update_node i (\<lambda>n. f (g n)) s"
  by (cases "i < length (nodes s)") (simp_all add: update_node_def list_update_beyond)

lemma started_update_node:
  assumes "\<And>n. started (f n) = started n" and "i < length (nodes s)"
  shows "started (nodes (update_node j f s) ! i) = started (nodes s ! i)"
  using assms by (cases "j = i") (simp_all add: update_node_def)

lemma grows_update_node2:
  assumes "\<And>n. started n \<Longrightarrow> started (f n)" and "\<And>n. started n \<Longrightarrow> started (g n)"
  shows "grows s (update_node i f (update_node j g s))"
  by (rule grows_trans[OF grows_update_node grows_update_node]) (fact assms)+

lemma updateBinauralFrequencies_frame:
  assumes "updateBinauralFrequencies baseFreq beatFreq s = Inr s'"
  shows "grows s s' \<and> binauralNodes s' = binauralNodes s \<and> chordOscillators s' = chordOscillators s"
proof -
  have "grows s s'"
    using assms
    by (simp add: updateBinauralFrequencies_def Let_def split: option.splits)
       (auto simp: grows_refl intro!: grows_update_node2)
  moreover have "binauralNodes s' = binauralNodes s \<and> chordOscillators s' = chordOscillators s"
    using assms
    by (auto simp add: updateBinauralFrequencies_def Let_def split: option.splits)
  ultimately show ?thesis by simp
qed

lemma updateNoiseMix_frame:
  assumes "updateNoiseMix mix s = Inr s'"
  shows "grows s s' \<and> binauralNodes s' = binauralNodes s \<and> chordOscillators s' = chordOscillators s"
proof -
  have "grows s s'"
    using assms
    by (simp add: updateNoiseMix_def Let_def split: option.splits)
       (auto simp: grows_refl intro!: grows_update_node2)
  moreover have "binauralNodes s' = binauralNodes s \<and> chordOscillators s' = chordOscillators s"
    using assms
    by (auto simp add: updateNoiseMix_def Let_def split: option.splits)
  ultimately show ?thesis by simp
qed

lemma updatePanning_frame:
  assumes "updatePanning panValue s = Inr s'"
  shows "grows s s' \<and> binauralNodes s' = binauralNodes s \<and> chordOscillators s' = chordOscillators s"
proof -
  have "grows s s'"
    using assms
    by (simp add: updatePanning_def Let_def split: option.splits)
       (auto simp: grows_refl intro!: grows_update_node)
  moreover have "binauralNodes s' = binauralNodes s \<and> chordOscillators s' = chordOscillators s"
    using assms
    by (auto simp add: updatePanning_def Let_def split: option.splits)
  ultimately show ?thesis by simp
qed

lemma updateWaveform_frame:
  assumes "updateWaveform waveform s = Inr s'"
  shows "grows s s' \<and> binauralNodes s' = binauralNodes s \<and> chordOscillators s' = chordOscillators s"
proof -
  have "grows s s'"
    using assms
    by (simp add: updateWaveform_def Let_def split: option.splits)
       (auto simp: grows_refl intro!: grows_update_node2)
  moreover have "binauralNodes s' = binauralNodes s \<and> chordOscillators s' = chordOscillators s"
    using assms
    by (auto simp add: updateWaveform_def Let_def split: option.splits)
  ultimately show ?thesis by simp
qed

text \<open>Each step of the loop of \<open>stopChord\<close> changes one node at most.\<close>

lemma stopChord_step:
  "(case and_then (stop_node osc s) (\<lambda>s. Inr (disconnect osc s)) of Inl e \<Rightarrow> s | Inr s' \<Rightarrow> s')
     = (if started (nodes s ! osc)
        then update_node osc (\<lambda>n. n\<lparr>stopped := True, outputs := []\<rparr>) s
        else s)"
  by (simp add: and_then_def stop_node_def disconnect_def update_node_twice)

lemma stopChord_forEach_store:
  "\<exists>ys. stopChord_forEach xs s = s\<lparr>nodes := ys\<rparr> \<and> length ys = length (nodes s) \<and>
        (\<forall>i < length ys. started (ys ! i) = started (nodes s ! i))"
proof (induction xs arbitrary: s)
  case Nil
  show ?case by (rule exI[of _ "nodes s"]) simp
next
  case (Cons osc xs)
  define s1 where "s1 = (if started (nodes s ! osc)
        then update_node osc (\<lambda>n. n\<lparr>stopped := True, outputs := []\<rparr>) s else s)"
  have s1: "s1 = s\<lparr>nodes := nodes s1\<rparr>" "length (nodes s1) = length (nodes s)"
    by (simp_all add: s1_def update_node_def)
  have s1': "\<forall>i < length (nodes s). started (nodes s1 ! i) = started (nodes s ! i)"
    by (simp add: s1_def started_update_node)
  from Cons.IH[of s1] obtain ys where ys: "stopChord_forEach xs s1 = s1\<lparr>nodes := ys\<rparr>"
    "length ys = length (nodes s1)" "\<forall>i < length ys. started (ys ! i) = started (nodes s1 ! i)"
    by blast
  have "stopChord_forEach (osc # xs) s = s1\<lparr>nodes := ys\<rparr>"
    by (simp only: stopChord_forEach.simps stopChord_step s1_def[symmetric] ys(1))
  also have "\<dots> = s\<lparr>nodes := ys\<rparr>"
    by (subst s1(1)) simp
  finally show ?case using ys s1 s1' by auto
qed

lemma stopChord_eq:
  "\<exists>ys. stopChord s = Inr (s\<lparr>nodes := ys, chordOscillators := []\<rparr>) \<and> length ys = length (nodes s) \<and>
        (\<forall>i < length ys. started (ys ! i) = started (nodes s ! i))"
  using stopChord_forEach_store[of "chordOscillators s" s]
  by (auto simp: stopChord_def)

lemma stopChord_frame:
  assumes "stopChord s = Inr s'"
  shows "grows s s' \<and> binauralNodes s' = binauralNodes s \<and> chordOscillators s' = []
       \<and> audioContext s' = audioContext s \<and> analyser s' = analyser s
       \<and> length (nodes s') = length (nodes s)"
proof -
  from stopChord_eq[of s] assms obtain ys where ys: "s' = s\<lparr>nodes := ys, chordOscillators := []\<rparr>"
    "length ys = length (nodes s)" "\<forall>i < length ys. started (ys ! i) = started (nodes s ! i)"
    by auto
  then have "grows s s'" by (intro growsI) simp_all
  with ys show ?thesis by simp
qed

lemma playChord_forEach_eq:
  "playChord_forEach chordGain octave len ns s =
     Inr (s\<lparr>nodes := nodes s @ chord_voices chordGain octave len (length (nodes s)) ns,
            chordOscillators := chordOscillators s @ voice_ids (length (nodes s)) (length ns)\<rparr>)"
proof (induction ns arbitrary: s)
  case Nil
  show ?case by simp
next
  case (Cons semitone rest)
  show ?case
    by (simp add: Let_def create_node_def update_node_def connect_def start_node_def and_then_def
          nth_append list_update_append Cons.IH new_node_def new_param_def set_value_def)
qed

lemma stopChord_Inr: "stopChord s = Inr (s\<lparr>nodes := silenced s, chordOscillators := []\<rparr>)"
proof -
  from stopChord_forEach_store[of "chordOscillators s" s]
  obtain ys where "stopChord_forEach (chordOscillators s) s = s\<lparr>nodes := ys\<rparr>" by blast
  then show ?thesis by (simp add: stopChord_def silenced_def)
qed

lemma length_silenced [simp]: "length (silenced s) = length (nodes s)"
  using stopChord_forEach_store[of "chordOscillators s" s] by (auto simp: silenced_def)

lemma started_silenced [simp]:
  "i < length (nodes s) \<Longrightarrow> started (silenced s ! i) = started (nodes s ! i)"
  using stopChord_forEach_store[of "chordOscillators s" s] by (auto simp: silenced_def)

lemma playChord_eq:
  assumes "audioContext s = Some ctx" and "analyser s = Some a"
  shows "playChord notes octave volume s =
     Inr (s\<lparr>nodes := silenced s @
               (new_node GainNode)
                  \<lparr>gain := \<lparr>param_value = volume * 0.2, events = []\<rparr>, outputs := [(a, 0, 0)]\<rparr>
               # chord_voices (length (nodes s)) octave (length notes) (length (nodes s) + 1) notes,
            chordOscillators := voice_ids (length (nodes s) + 1) (length notes)\<rparr>)"
  using assms
  by (simp add: playChord_def stopChord_Inr and_then_def Let_def create_node_def update_node_def
        connect_def playChord_forEach_eq nth_append list_update_append new_node_def new_param_def
        set_value_def)

lemma length_chord_voices [simp]:
  "length (chord_voices chordGain octave len m ns) = 2 * length ns"
  by (induction ns arbitrary: m) simp_all

lemma nth_chord_voices_osc:
  "j < length ns \<Longrightarrow>
   chord_voices chordGain octave len m ns ! (2 * j) =
     (new_node OscillatorNode)
        \<lparr>osc_type := Sine,
         frequency := \<lparr>param_value = semitoneToFrequency (ns ! j) octave, events = []\<rparr>,
         started := True, outputs := [(m + 2 * j + 1, 0, 0)]\<rparr>"
proof (induction ns arbitrary: m j)
  case Nil
  then show ?case by simp
next
  case (Cons x xs)
  show ?case
  proof (cases j)
    case 0
    then show ?thesis by simp
  next
    case (Suc k)
    with Cons.prems have "k < length xs" by simp
    from Cons.IH[OF this, of "m + 2"] Suc show ?thesis by simp
  qed
qed

lemma nth_chord_voices_gain:
  "j < length ns \<Longrightarrow>
   chord_voices chordGain octave len m ns ! (2 * j + 1) =
     (new_node GainNode)
        \<lparr>gain := \<lparr>param_value = 1 / real len, events = []\<rparr>, outputs := [(chordGain, 0, 0)]\<rparr>"
proof (induction ns arbitrary: m j)
  case Nil
  then show ?case by simp
next
  case (Cons x xs)
  show ?case
  proof (cases j)
    case 0
    then show ?thesis by simp
  next
    case (Suc k)
    with Cons.prems have "k < length xs" by simp
    from Cons.IH[OF this, of "m + 2"] Suc show ?thesis by simp
  qed
qed

lemma voice_ids_eq: "voice_ids m k = map (\<lambda>j. m + 2 * j) [0..<k]"
proof (induction k arbitrary: m)
  case 0
  show ?case by simp
next
  case (Suc k)
  have "[0..<Suc k] = 0 # map Suc [0..<k]"
    by (simp add: upt_conv_Cons map_Suc_upt del: upt_Suc)
  then show ?case by (simp add: Suc.IH comp_def del: upt_Suc)
qed

lemma mount_frame:
  "grows s (useEffect_mount rate s) \<and>
   binauralNodes (useEffect_mount rate s) = binauralNodes s \<and>
   chordOscillators (useEffect_mount rate s) = chordOscillators s"
  by (auto simp: useEffect_mount_eq Let_def nth_append intro!: growsI)

lemma playChord_frame:
  assumes "playChord ns octave volume s = Inr s'"
  shows "grows s s' \<and> binauralNodes s' = binauralNodes s"
proof (cases "audioContext s = None \<or> analyser s = None")
  case True
  with assms have "s' = s" by (auto simp: playChord_def split: option.splits)
  then show ?thesis by (simp add: grows_refl)
next
  case False
  then obtain ctx a where "audioContext s = Some ctx" "analyser s = Some a" by auto
  from assms[unfolded playChord_eq[OF this]] show ?thesis
    by (auto intro!: growsI simp: nth_append)
qed

lemma playChord_chords_ok:
  assumes "playChord ns octave volume s = Inr s'" and "chords_ok s"
  shows "chords_ok s'"
proof (cases "audioContext s = None \<or> analyser s = None")
  case True
  with assms have "s' = s" by (auto simp: playChord_def split: option.splits)
  with assms show ?thesis by simp
next
  case False
  then obtain ctx a where "audioContext s = Some ctx" "analyser s = Some a" by auto
  from assms(1)[unfolded playChord_eq[OF this]]
  have s': "s' = s\<lparr>nodes := silenced s @
               (new_node GainNode)
                  \<lparr>gain := \<lparr>param_value = volume * 0.2, events = []\<rparr>, outputs := [(a, 0, 0)]\<rparr>
               # chord_voices (length (nodes s)) octave (length ns) (length (nodes s) + 1) ns,
            chordOscillators := voice_ids (length (nodes s) + 1) (length ns)\<rparr>"
    by simp
  show ?thesis
    unfolding chords_ok_def list_all_iff
  proof
    fix i
    assume "i \<in> set (chordOscillators s')"
    then obtain j where j: "j < length ns" "i = length (nodes s) + 1 + 2 * j"
      by (auto simp: s' voice_ids_eq)
    then show "i < length (nodes s') \<and> started (nodes s' ! i)"
      by (simp add: s' nth_append nth_chord_voices_osc)
  qed
qed

section \<open>Reachable states keep the invariant, and no call raises\<close>

lemma handle_ok_null: "binauralNodes s = null_nodes \<Longrightarrow> handle_ok s"
  by (simp add: handle_ok_def null_nodes_def)

lemma startBinaural_chords:
  assumes "handle_ok s" and "startBinaural baseFreq beatFreq noiseMix panValue waveform s = Inr s'"
  shows "chordOscillators s' = chordOscillators s"
proof (cases "audioContext s = None \<or> analyser s = None")
  case True
  with assms have "s' = s" by (auto simp: startBinaural_def split: option.splits)
  then show ?thesis by simp
next
  case False
  then obtain ctx a where "audioContext s = Some ctx" "analyser s = Some a" by auto
  from assms(2)[unfolded startBinaural_eq[OF assms(1) this]] show ?thesis by auto
qed

lemma api_call_invariant:
  assumes "handle_ok s" and "chords_ok s" and "api_call c s = Inr s'"
  shows "handle_ok s' \<and> chords_ok s'"
proof (cases c)
  case (StartBinaural baseFreq beatFreq noiseMix panValue waveform)
  with assms(3) have run: "startBinaural baseFreq beatFreq noiseMix panValue waveform s = Inr s'"
    by simp
  from startBinaural_handle_ok[OF assms(1) run]
    chords_ok_grows[OF assms(2) startBinaural_grows[OF assms(1) run] startBinaural_chords[OF assms(1) run]]
  show ?thesis by simp
next
  case StopBinaural
  with assms(3) have run: "stopBinaural s = Inr s'" by simp
  then have s': "s' = s\<lparr>nodes := stopped_store s, binauralNodes := null_nodes\<rparr>"
    by (simp add: stopBinaural_eq[OF assms(1)])
  then have "handle_ok s'" by (simp add: handle_ok_null)
  moreover have "chords_ok s'"
    using chords_ok_grows[OF assms(2) stopBinaural_grows[OF assms(1) run]] s' by simp
  ultimately show ?thesis by simp
next
  case (UpdateBinauralFrequencies baseFreq beatFreq)
  with assms(3) have "updateBinauralFrequencies baseFreq beatFreq s = Inr s'" by simp
  from updateBinauralFrequencies_frame[OF this] assms(1,2) show ?thesis
    by (simp add: handle_ok_grows chords_ok_grows)
next
  case (UpdateNoiseMix mix)
  with assms(3) have "updateNoiseMix mix s = Inr s'" by simp
  from updateNoiseMix_frame[OF this] assms(1,2) show ?thesis
    by (simp add: handle_ok_grows chords_ok_grows)
next
  case (UpdatePanning panValue)
  with assms(3) have "updatePanning panValue s = Inr s'" by simp
  from updatePanning_frame[OF this] assms(1,2) show ?thesis
    by (simp add: handle_ok_grows chords_ok_grows)
next
  case (UpdateWaveform waveform)
  with assms(3) have "updateWaveform waveform s = Inr s'" by simp
  from updateWaveform_frame[OF this] assms(1,2) show ?thesis
    by (simp add: handle_ok_grows chords_ok_grows)
next
  case (PlayDrumSound drumType)
  with assms(3) have run: "playDrumSound drumType s = Inr s'" by simp
  from playDrumSound_grows[OF run] playDrumSound_fields[OF run] assms(1,2) show ?thesis
    by (simp add: handle_ok_grows chords_ok_grows)
next
  case (PlayChord ns octave volume)
  with assms(3) have run: "playChord ns octave volume s = Inr s'" by simp
  from playChord_frame[OF run] playChord_chords_ok[OF run assms(2)] assms(1) show ?thesis
    by (simp add: handle_ok_grows)
next
  case StopChord
  with assms(3) have "stopChord s = Inr s'" by simp
  from stopChord_frame[OF this] assms(1) show ?thesis
    by (simp add: handle_ok_grows chords_ok_def)
qed

lemma reachable_invariant: "reachable s \<Longrightarrow> handle_ok s \<and> chords_ok s"
proof (induction rule: reachable.induct)
  case (first_render rv)
  show ?case by (simp add: initial_engine_def handle_ok_null chords_ok_def)
next
  case (effect s rate)
  with mount_frame[of s rate] show ?case
    by (blast intro: handle_ok_grows chords_ok_grows)
next
  case (called s c s')
  then have "handle_ok s" and "chords_ok s" by simp_all
  from api_call_invariant[OF this called.hyps(2)] show ?case .
next
  case (clock s ctx t)
  then show ?case by (auto simp: handle_ok_def chords_ok_def split: option.splits)
qed

text \<open>No call of the interface raises in a reachable state.\<close>

lemma api_call_returns:
  assumes "handle_ok s"
  shows "\<exists>s'. api_call c s = Inr s'"
proof (cases c)
  case (StartBinaural baseFreq beatFreq noiseMix panValue waveform)
  show ?thesis
  proof (cases "audioContext s = None \<or> analyser s = None")
    case True
    then show ?thesis by (auto simp: StartBinaural startBinaural_def split: option.splits)
  next
    case False
    then obtain ctx a where "audioContext s = Some ctx" "analyser s = Some a" by auto
    from startBinaural_eq[OF assms this] show ?thesis by (simp add: StartBinaural)
  qed
next
  case StopBinaural
  then show ?thesis by (simp add: stopBinaural_eq[OF assms])
next
  case (UpdateBinauralFrequencies baseFreq beatFreq)
  then show ?thesis
    by (simp add: updateBinauralFrequencies_def Let_def split: option.splits)
next
  case (UpdateNoiseMix mix)
  then show ?thesis by (simp add: updateNoiseMix_def Let_def split: option.splits)
next
  case (UpdatePanning panValue)
  then show ?thesis by (simp add: updatePanning_def split: option.splits)
next
  case (UpdateWaveform waveform)
  then show ?thesis by (simp add: updateWaveform_def Let_def split: option.splits)
next
  case (PlayDrumSound drumType)
  show ?thesis
  proof (cases "audioContext s = None \<or> analyser s = None \<or> drumBuffers s drumType = None")
    case True
    then show ?thesis by (auto simp: PlayDrumSound playDrumSound_def split: option.splits)
  next
    case False
    then obtain ctx a b where "audioContext s = Some ctx" "analyser s = Some a"
      "drumBuffers s drumType = Some b" by auto
    from playDrumSound_eq[OF this] show ?thesis by (simp add: PlayDrumSound)
  qed
next
  case (PlayChord ns octave volume)
  show ?thesis
  proof (cases "audioContext s = None \<or> analyser s = None")
    case True
    then show ?thesis by (auto simp: PlayChord playChord_def split: option.splits)
  next
    case False
    then obtain ctx a where "audioContext s = Some ctx" "analyser s = Some a" by auto
    from playChord_eq[OF this] show ?thesis by (simp add: PlayChord)
  qed
next
  case StopChord
  then show ?thesis by (simp add: stopChord_def)
qed

section \<open>The example states\<close>

lemma reachable_mounted: "reachable mounted_engine"
  unfolding mounted_engine_def
  by (rule reachable.effect[OF reachable.first_render]) (simp add: initial_engine_def)

lemma mounted_initialised:
  "audioContext mounted_engine = Some \<lparr>sampleRate = 10, currentTime = 0, destination = 0\<rparr>"
  "analyser mounted_engine = Some 1"
  "binauralNodes mounted_engine = null_nodes"
  "chordOscillators mounted_engine = []"
  "length (nodes mounted_engine) = 2"
  by (simp_all add: mounted_engine_def useEffect_mount_eq Let_def initial_engine_def)

lemma start_mounted: "startBinaural 200 4 0 0 Sine mounted_engine = Inr playing_engine"
  using api_call_returns[of mounted_engine "StartBinaural 200 4 0 0 Sine"]
    reachable_invariant[OF reachable_mounted]
  by (auto simp: playing_engine_def)

lemma reachable_playing: "reachable playing_engine"
  using reachable.called[OF reachable_mounted, of "StartBinaural 200 4 0 0 Sine" playing_engine]
  by (simp add: start_mounted)

lemma stop_playing: "stopBinaural playing_engine = Inr stopped_engine"
  using api_call_returns[of playing_engine StopBinaural]
    reachable_invariant[OF reachable_playing]
  by (auto simp: stopped_engine_def)

section \<open>Parameters, the drum bank and released chords\<close>

lemma stopBinaural_clears:
  assumes "stopBinaural s = Inr s'"
  shows "binauralNodes s' = null_nodes"
proof -
  obtain s1 where 1: "stop_and_disconnect_if (leftOsc (binauralNodes s)) s = Inr s1"
    using assms by (cases "stop_and_disconnect_if (leftOsc (binauralNodes s)) s")
      (simp_all add: stopBinaural_def and_then_def)
  obtain s2 where 2: "stop_and_disconnect_if (rightOsc (binauralNodes s)) s1 = Inr s2"
    using assms 1 by (cases "stop_and_disconnect_if (rightOsc (binauralNodes s)) s1")
      (simp_all add: stopBinaural_def and_then_def)
  obtain s3 where 3: "stop_and_disconnect_if (noiseSource (binauralNodes s)) s2 = Inr s3"
    using assms 1 2 by (cases "stop_and_disconnect_if (noiseSource (binauralNodes s)) s2")
      (simp_all add: stopBinaural_def and_then_def)
  from assms 1 2 3 show ?thesis
    by (auto simp: stopBinaural_def and_then_def Let_def)
qed

lemma value_at_assigned [simp]: "value_at \<lparr>param_value = v, events = []\<rparr> t = v"
  by (simp add: value_at_def)

lemma value_at_setValueAtTime [simp]: "value_at (setValueAtTime v t p) t = v"
  by (simp add: value_at_def setValueAtTime_def)

lemma events_setValueAtTime [simp]:
  "events (setValueAtTime v t p) = events p @ [SetValueAtTime v t]"
  by (simp add: setValueAtTime_def)

lemma handle_ok_session:
  assumes "handle_ok s" and "binauralNodes s \<noteq> null_nodes"
  obtains n where "binauralNodes s = session_handle n" and "n + 13 \<le> length (nodes s)"
  using assms by (cases "merger (binauralNodes s)") (auto simp: handle_ok_def)

lemma playing_fields:
  "audioContext playing_engine = Some \<lparr>sampleRate = 10, currentTime = 0, destination = 0\<rparr>"
  "analyser playing_engine = Some 1"
  "binauralNodes playing_engine = session_handle 2"
  "chordOscillators playing_engine = []"
  "length (nodes playing_engine) = 15"
proof -
  have ok: "handle_ok mounted_engine"
    using reachable_invariant[OF reachable_mounted] by simp
  have eq: "playing_engine = mounted_engine\<lparr>nodes := stopped_store mounted_engine @
               session_graph (length (nodes mounted_engine)) 1 200 4 0 0 Sine
                 (white_noise \<lparr>sampleRate = 10, currentTime = 0, destination = 0\<rparr>
                    (random_values mounted_engine) (random_pos mounted_engine)),
             random_pos := random_pos mounted_engine + 2 * nat \<lceil>sampleRate \<lparr>sampleRate = 10, currentTime = 0, destination = 0\<rparr> * 2\<rceil>,
             binauralNodes := session_handle (length (nodes mounted_engine))\<rparr>"
    using start_mounted startBinaural_eq[OF ok mounted_initialised(1,2), of 200 4 0 0 Sine]
    by simp
  show
    "audioContext playing_engine = Some \<lparr>sampleRate = 10, currentTime = 0, destination = 0\<rparr>"
    "analyser playing_engine = Some 1"
    "binauralNodes playing_engine = session_handle 2"
    "chordOscillators playing_engine = []"
    "length (nodes playing_engine) = 15"
    unfolding eq by (simp_all add: mounted_initialised session_graph_def)
qed

lemma api_call_shell:
  assumes "handle_ok s" and "api_call c s = Inr s'"
  shows "audioContext s' = audioContext s \<and> analyser s' = analyser s
       \<and> drumBuffers s' = drumBuffers s \<and> random_values s' = random_values s"
proof (cases c)
  case (StartBinaural baseFreq beatFreq noiseMix panValue waveform)
  with assms(2) have run: "startBinaural baseFreq beatFreq noiseMix panValue waveform s = Inr s'"
    by simp
  show ?thesis
  proof (cases "audioContext s = None \<or> analyser s = None")
    case True
    with run have "s' = s" by (auto simp: startBinaural_def split: option.splits)
    then show ?thesis by simp
  next
    case False
    then obtain ctx a where "audioContext s = Some ctx" "analyser s = Some a" by auto
    from run[unfolded startBinaural_eq[OF assms(1) this]] show ?thesis by auto
  qed
next
  case StopBinaural
  with assms(2) have "stopBinaural s = Inr s'" by simp
  then show ?thesis by (auto simp: stopBinaural_eq[OF assms(1)])
next
  case (UpdateBinauralFrequencies baseFreq beatFreq)
  with assms(2) show ?thesis
    by (auto simp: updateBinauralFrequencies_def Let_def split: option.splits)
next
  case (UpdateNoiseMix mix)
  with assms(2) show ?thesis
    by (auto simp: updateNoiseMix_def Let_def split: option.splits)
next
  case (UpdatePanning panValue)
  with assms(2) show ?thesis
    by (auto simp: updatePanning_def Let_def split: option.splits)
next
  case (UpdateWaveform waveform)
  with assms(2) show ?thesis
    by (auto simp: updateWaveform_def Let_def split: option.splits)
next
  case (PlayDrumSound drumType)
  with assms(2) have "playDrumSound drumType s = Inr s'" by simp
  from playDrumSound_cases[OF this] show ?thesis by auto
next
  case (PlayChord ns octave volume)
  with assms(2) have run: "playChord ns octave volume s = Inr s'" by simp
  show ?thesis
  proof (cases "audioContext s = None \<or> analyser s = None")
    case True
    with run have "s' = s" by (auto simp: playChord_def split: option.splits)
    then show ?thesis by simp
  next
    case False
    then obtain ctx a where "audioContext s = Some ctx" "analyser s = Some a" by auto
    from run[unfolded playChord_eq[OF this]] show ?thesis by auto
  qed
next
  case StopChord
  with assms(2) show ?thesis by (auto simp: stopChord_Inr)
qed

lemma drum_buffers_clock [simp]:
  "kick_buffer (ctx\<lparr>currentTime := t\<rparr>) = kick_buffer ctx"
  "snare_buffer (ctx\<lparr>currentTime := t\<rparr>) rv p = snare_buffer ctx rv p"
  "hihat_buffer (ctx\<lparr>currentTime := t\<rparr>) rv p = hihat_buffer ctx rv p"
  by (simp_all add: kick_buffer_def snare_buffer_def hihat_buffer_def)

lemma reachable_bank: "reachable s \<Longrightarrow> bank_loaded s"
proof (induction rule: reachable.induct)
  case (first_render rv)
  show ?case by (simp add: bank_loaded_def initial_engine_def)
next
  case (effect s rate)
  then have "drumBuffers s = Map.empty" by (simp add: bank_loaded_def)
  then show ?case
    by (auto simp: bank_loaded_def useEffect_mount_eq Let_def)
next
  case (called s c s')
  from called.hyps(1) have "handle_ok s" by (simp add: reachable_invariant)
  from api_call_shell[OF this called.hyps(2)] called.IH show ?case
    by (auto simp: bank_loaded_def split: option.splits)
next
  case (clock s ctx t)
  then show ?case by (auto simp: bank_loaded_def)
qed

lemma stopped_fields:
  "binauralNodes stopped_engine = null_nodes"
  "chordOscillators stopped_engine = []"
proof -
  have "handle_ok playing_engine"
    using reachable_invariant[OF reachable_playing] by simp
  from stopBinaural_eq[OF this] stop_playing
  have eq: "stopped_engine =
      playing_engine\<lparr>nodes := stopped_store playing_engine, binauralNodes := null_nodes\<rparr>"
    by simp
  show "binauralNodes stopped_engine = null_nodes" "chordOscillators stopped_engine = []"
    unfolding eq by (simp_all add: playing_fields)
qed

lemma stopChord_forEach_stays:
  assumes "i < length (nodes s)" and "stopped (nodes s ! i)" and "outputs (nodes s ! i) = []"
  shows "stopped (nodes (stopChord_forEach xs s) ! i) \<and> outputs (nodes (stopChord_forEach xs s) ! i) = []"
  using assms
proof (induction xs arbitrary: s)
  case Nil
  then show ?case by simp
next
  case (Cons osc xs)
  let ?s1 = "if started (nodes s ! osc)
        then update_node osc (\<lambda>n. n\<lparr>stopped := True, outputs := []\<rparr>) s else s"
  have "i < length (nodes ?s1)" "stopped (nodes ?s1 ! i)" "outputs (nodes ?s1 ! i) = []"
    using Cons.prems by (cases "osc = i"; simp add: update_node_def)+
  from Cons.IH[OF this] show ?case
    by (simp only: stopChord_forEach.simps stopChord_step)
qed

lemma stopChord_forEach_stops:
  assumes "i \<in> set xs" and "i < length (nodes s)" and "started (nodes s ! i)"
  shows "stopped (nodes (stopChord_forEach xs s) ! i) \<and> outputs (nodes (stopChord_forEach xs s) ! i) = []"
  using assms
proof (induction xs arbitrary: s)
  case Nil
  then show ?case by simp
next
  case (Cons osc xs)
  let ?s1 = "if started (nodes s ! osc)
        then update_node osc (\<lambda>n. n\<lparr>stopped := True, outputs := []\<rparr>) s else s"
  have len: "i < length (nodes ?s1)" using Cons.prems by simp
  have st: "started (nodes ?s1 ! i)"
    using Cons.prems by (cases "osc = i"; simp add: update_node_def)
  show ?case
  proof (cases "osc = i")
    case True
    with Cons.prems have "stopped (nodes ?s1 ! i)" "outputs (nodes ?s1 ! i) = []"
      by (simp_all add: update_node_def)
    from stopChord_forEach_stays[OF len this] show ?thesis
      by (simp only: stopChord_forEach.simps stopChord_step)
  next
    case False
    with Cons.prems have "i \<in> set xs" by auto
    from Cons.IH[OF this len st] show ?thesis
      by (simp only: stopChord_forEach.simps stopChord_step)
  qed
qed

lemma silenced_chord:
  assumes "chords_ok s" and "i \<in> set (chordOscillators s)"
  shows "i < length (nodes s) \<and> stopped (silenced s ! i) \<and> outputs (silenced s ! i) = []"
proof -
  from assms have "i < length (nodes s)" "started (nodes s ! i)"
    by (auto simp: chords_ok_def list_all_iff)
  with stopChord_forEach_stops[OF assms(2) this] show ?thesis
    by (simp add: silenced_def)
qed

lemma chord_fields:
  "reachable chord_engine"
  "audioContext chord_engine = Some \<lparr>sampleRate = 10, currentTime = 0, destination = 0\<rparr>"
  "analyser chord_engine = Some 1"
  "chordOscillators chord_engine = [3, 5, 7]"
  "length (nodes chord_engine) = 9"
proof -
  note run = playChord_eq[OF mounted_initialised(1,2), of "[0, 4, 7]" 4 "1 / 2"]
  then have eq: "chord_engine = mounted_engine\<lparr>nodes := silenced mounted_engine @
               (new_node GainNode)
                  \<lparr>gain := \<lparr>param_value = 1 / 2 * 0.2, events = []\<rparr>, outputs := [(1, 0, 0)]\<rparr>
               # chord_voices (length (nodes mounted_engine)) 4 (length [0, 4, 7::real])
                   (length (nodes mounted_engine) + 1) [0, 4, 7],
            chordOscillators := voice_ids (length (nodes mounted_engine) + 1) (length [0, 4, 7::real])\<rparr>"
    by (simp add: chord_engine_def)
  from run have "api_call (PlayChord [0, 4, 7] 4 (1 / 2)) mounted_engine = Inr chord_engine"
    by (simp add: chord_engine_def)
  from reachable.called[OF reachable_mounted this] show "reachable chord_engine" .
  show "audioContext chord_engine = Some \<lparr>sampleRate = 10, currentTime = 0, destination = 0\<rparr>"
    "analyser chord_engine = Some 1"
    "chordOscillators chord_engine = [3, 5, 7]"
    "length (nodes chord_engine) = 9"
    unfolding eq by (simp_all add: mounted_initialised voice_ids_eq upt_rec)
qed

section \<open>The thirteen nodes of a session\<close>

lemma thirteen: "[0..<13] = [0, 1, 2, 3, 4, 5, 6, 7, 8, 9, 10, 11, 12]"
  by code_simp

section \<open>The sources in use are playing\<close>

lemma stopChord_forEach_other:
  "i \<notin> set xs \<Longrightarrow> nodes (stopChord_forEach xs s) ! i = nodes s ! i"
proof (induction xs arbitrary: s)
  case Nil
  show ?case by simp
next
  case (Cons osc xs)
  let ?s1 = "if started (nodes s ! osc)
        then update_node osc (\<lambda>n. n\<lparr>stopped := True, outputs := []\<rparr>) s else s"
  from Cons.prems have "osc \<noteq> i" "i \<notin> set xs" by auto
  then have "nodes (stopChord_forEach xs ?s1) ! i = nodes ?s1 ! i" "nodes ?s1 ! i = nodes s ! i"
    using Cons.IH[of ?s1] by (simp_all add: update_node_def)
  then show ?case
    by (simp only: stopChord_forEach.simps stopChord_step)
qed

lemma silenced_other: "i \<notin> set (chordOscillators s) \<Longrightarrow> silenced s ! i = nodes s ! i"
  by (simp add: silenced_def stopChord_forEach_other)

lemma stopped_store_other:
  "i < length (nodes s) \<Longrightarrow> \<not> in_session s i \<Longrightarrow> stopped_store s ! i = nodes s ! i"
  by (auto simp: stopped_store_def in_session_def nth_retire split: option.splits)

lemma sources_liveI:
  assumes "\<And>n. merger (binauralNodes s) = Some n \<Longrightarrow>
             live (nodes s ! (n + 1)) \<and> live (nodes s ! (n + 2)) \<and> live (nodes s ! (n + 12))"
    and "\<And>i. i \<in> set (chordOscillators s) \<Longrightarrow> live (nodes s ! i) \<and> \<not> in_session s i"
  shows "sources_live s"
  using assms by (auto simp: sources_live_def list_all_iff split: option.splits)

lemma sources_live_handle:
  "sources_live s \<Longrightarrow> merger (binauralNodes s) = Some n \<Longrightarrow>
   live (nodes s ! (n + 1)) \<and> live (nodes s ! (n + 2)) \<and> live (nodes s ! (n + 12))"
  by (simp add: sources_live_def)

lemma sources_live_chord:
  "sources_live s \<Longrightarrow> i \<in> set (chordOscillators s) \<Longrightarrow>
   live (nodes s ! i) \<and> \<not> in_session s i"
  by (simp add: sources_live_def list_all_iff)

text \<open>A call that leaves the handle, the chord list and every old node's state of play alone.\<close>

lemma sources_live_frame:
  assumes live: "sources_live s" and ok: "handle_ok s" and ch: "chords_ok s"
    and h: "binauralNodes s' = binauralNodes s" and c: "chordOscillators s' = chordOscillators s"
    and same: "\<And>i. i < length (nodes s) \<Longrightarrow> live (nodes s' ! i) = live (nodes s ! i)"
  shows "sources_live s'"
proof (rule sources_liveI)
  fix n
  assume m: "merger (binauralNodes s') = Some n"
  with h ok have "n + 13 \<le> length (nodes s)" by (simp add: handle_ok_def)
  with sources_live_handle[OF live, of n] m h same
  show "live (nodes s' ! (n + 1)) \<and> live (nodes s' ! (n + 2)) \<and> live (nodes s' ! (n + 12))"
    by simp
next
  fix i
  assume "i \<in> set (chordOscillators s')"
  with c have i: "i \<in> set (chordOscillators s)" by simp
  with ch have "i < length (nodes s)" by (simp add: chords_ok_def list_all_iff)
  with sources_live_chord[OF live i] same h
  show "live (nodes s' ! i) \<and> \<not> in_session s' i"
    by (simp add: in_session_def)
qed

lemma live_update_node:
  assumes "\<And>nd. live (f nd) = live nd"
  shows "live (nodes (update_node j f s) ! i) = live (nodes s ! i)"
proof (cases "j < length (nodes s)")
  case True
  then show ?thesis using assms by (cases "j = i") (simp_all add: update_node_def)
next
  case False
  then show ?thesis by (simp add: update_node_def list_update_beyond)
qed

lemma live_fields [simp]:
  "live (nd\<lparr>frequency := x\<rparr>) = live nd"
  "live (nd\<lparr>gain := y\<rparr>) = live nd"
  "live (nd\<lparr>pan := z\<rparr>) = live nd"
  "live (nd\<lparr>osc_type := w\<rparr>) = live nd"
  by (simp_all add: live_def)

lemma live_update_node2:
  assumes "\<And>nd. live (f nd) = live nd" and "\<And>nd. live (g nd) = live nd"
  shows "live (nodes (update_node j f (update_node k g s)) ! i) = live (nodes s ! i)"
  by (simp add: live_update_node assms)

lemma api_call_sources_live:
  assumes live: "sources_live s" and ok: "handle_ok s" and ch: "chords_ok s"
    and run: "api_call c s = Inr s'"
  shows "sources_live s'"
proof (cases c)
  case (StartBinaural baseFreq beatFreq noiseMix panValue waveform)
  with run have r: "startBinaural baseFreq beatFreq noiseMix panValue waveform s = Inr s'"
    by simp
  show ?thesis
  proof (cases "audioContext s = None \<or> analyser s = None")
    case True
    with r have "s' = s" by (auto simp: startBinaural_def split: option.splits)
    with live show ?thesis by simp
  next
    case False
    then obtain ctx a where "audioContext s = Some ctx" "analyser s = Some a" by auto
    from r[unfolded startBinaural_eq[OF ok this]]
    have s': "s' = s\<lparr>nodes := stopped_store s @
               session_graph (length (nodes s)) a baseFreq beatFreq noiseMix panValue waveform
                 (white_noise ctx (random_values s) (random_pos s)),
             random_pos := random_pos s + 2 * nat \<lceil>sampleRate ctx * 2\<rceil>,
             binauralNodes := session_handle (length (nodes s))\<rparr>"
      by simp
    show ?thesis
    proof (rule sources_liveI)
      fix n
      assume "merger (binauralNodes s') = Some n"
      then have "n = length (nodes s)" by (simp add: s' session_handle_def)
      then show "live (nodes s' ! (n + 1)) \<and> live (nodes s' ! (n + 2)) \<and> live (nodes s' ! (n + 12))"
        by (simp add: s' nth_append session_graph_def live_def new_node_def)
    next
      fix i
      assume "i \<in> set (chordOscillators s')"
      then have i: "i \<in> set (chordOscillators s)" by (simp add: s')
      with ch have len: "i < length (nodes s)" by (simp add: chords_ok_def list_all_iff)
      from sources_live_chord[OF live i] stopped_store_other[OF len]
      have "live (stopped_store s ! i)" by simp
      with len show "live (nodes s' ! i) \<and> \<not> in_session s' i"
        by (simp add: s' nth_append in_session_def session_handle_def)
    qed
  qed
next
  case StopBinaural
  with run have "stopBinaural s = Inr s'" by simp
  then have s': "s' = s\<lparr>nodes := stopped_store s, binauralNodes := null_nodes\<rparr>"
    by (simp add: stopBinaural_eq[OF ok])
  show ?thesis
  proof (rule sources_liveI)
    fix n
    assume "merger (binauralNodes s') = Some n"
    then show "live (nodes s' ! (n + 1)) \<and> live (nodes s' ! (n + 2)) \<and> live (nodes s' ! (n + 12))"
      by (simp add: s' null_nodes_def)
  next
    fix i
    assume "i \<in> set (chordOscillators s')"
    then have i: "i \<in> set (chordOscillators s)" by (simp add: s')
    with ch have len: "i < length (nodes s)" by (simp add: chords_ok_def list_all_iff)
    from sources_live_chord[OF live i] stopped_store_other[OF len]
    show "live (nodes s' ! i) \<and> \<not> in_session s' i"
      by (simp add: s' in_session_def null_nodes_def)
  qed
next
  case (UpdateBinauralFrequencies baseFreq beatFreq)
  with run have r: "updateBinauralFrequencies baseFreq beatFreq s = Inr s'" by simp
  have "live (nodes s' ! i) = live (nodes s ! i)" for i
    using r
    by (auto simp: updateBinauralFrequencies_def Let_def live_update_node2
          split: option.splits)
  with updateBinauralFrequencies_frame[OF r] show ?thesis
    by (intro sources_live_frame[OF live ok ch]) simp_all
next
  case (UpdateNoiseMix mix)
  with run have r: "updateNoiseMix mix s = Inr s'" by simp
  have "live (nodes s' ! i) = live (nodes s ! i)" for i
    using r
    by (auto simp: updateNoiseMix_def Let_def live_update_node2 split: option.splits)
  with updateNoiseMix_frame[OF r] show ?thesis
    by (intro sources_live_frame[OF live ok ch]) simp_all
next
  case (UpdatePanning panValue)
  with run have r: "updatePanning panValue s = Inr s'" by simp
  have "live (nodes s' ! i) = live (nodes s ! i)" for i
    using r
    by (auto simp: updatePanning_def Let_def live_update_node split: option.splits)
  with updatePanning_frame[OF r] show ?thesis
    by (intro sources_live_frame[OF live ok ch]) simp_all
next
  case (UpdateWaveform waveform)
  with run have r: "updateWaveform waveform s = Inr s'" by simp
  have "live (nodes s' ! i) = live (nodes s ! i)" for i
    using r
    by (auto simp: updateWaveform_def Let_def live_update_node2 split: option.splits)
  with updateWaveform_frame[OF r] show ?thesis
    by (intro sources_live_frame[OF live ok ch]) simp_all
next
  case (PlayDrumSound drumType)
  with run have r: "playDrumSound drumType s = Inr s'" by simp
  have "live (nodes s' ! i) = live (nodes s ! i)" if "i < length (nodes s)" for i
    using playDrumSound_cases[OF r] that by (auto simp: nth_append)
  with playDrumSound_fields[OF r] show ?thesis
    by (intro sources_live_frame[OF live ok ch]) simp_all
next
  case (PlayChord ns octave volume)
  with run have r: "playChord ns octave volume s = Inr s'" by simp
  show ?thesis
  proof (cases "audioContext s = None \<or> analyser s = None")
    case True
    with r have "s' = s" by (auto simp: playChord_def split: option.splits)
    with live show ?thesis by simp
  next
    case False
    then obtain ctx a where "audioContext s = Some ctx" "analyser s = Some a" by auto
    from r[unfolded playChord_eq[OF this]]
    have s': "s' = s\<lparr>nodes := silenced s @
               (new_node GainNode)
                  \<lparr>gain := \<lparr>param_value = volume * 0.2, events = []\<rparr>, outputs := [(a, 0, 0)]\<rparr>
               # chord_voices (length (nodes s)) octave (length ns) (length (nodes s) + 1) ns,
            chordOscillators := voice_ids (length (nodes s) + 1) (length ns)\<rparr>"
      by simp
    show ?thesis
    proof (rule sources_liveI)
      fix n
      assume "merger (binauralNodes s') = Some n"
      then have m: "merger (binauralNodes s) = Some n" by (simp add: s')
      with ok have len: "n + 13 \<le> length (nodes s)" by (simp add: handle_ok_def)
      have out: "n + k \<notin> set (chordOscillators s)" if "k < 13" for k
        using sources_live_chord[OF live, of "n + k"] m that by (auto simp: in_session_def)
      from sources_live_handle[OF live m] len out[of 1] out[of 2] out[of 12]
      show "live (nodes s' ! (n + 1)) \<and> live (nodes s' ! (n + 2)) \<and> live (nodes s' ! (n + 12))"
        by (simp add: s' nth_append silenced_other)
    next
      fix i
      assume "i \<in> set (chordOscillators s')"
      then obtain j where j: "j < length ns" "i = length (nodes s) + 1 + 2 * j"
        by (auto simp: s' voice_ids_eq)
      have "\<not> in_session s' i"
        using ok j by (auto simp: in_session_def s' handle_ok_def split: option.splits)
      with j show "live (nodes s' ! i) \<and> \<not> in_session s' i"
        by (simp add: s' nth_append nth_chord_voices_osc live_def new_node_def)
    qed
  qed
next
  case StopChord
  with run have s': "s' = s\<lparr>nodes := silenced s, chordOscillators := []\<rparr>"
    by (simp add: stopChord_Inr)
  show ?thesis
  proof (rule sources_liveI)
    fix n
    assume "merger (binauralNodes s') = Some n"
    then have m: "merger (binauralNodes s) = Some n" by (simp add: s')
    have out: "n + k \<notin> set (chordOscillators s)" if "k < 13" for k
      using sources_live_chord[OF live, of "n + k"] m that by (auto simp: in_session_def)
    from sources_live_handle[OF live m] out[of 1] out[of 2] out[of 12]
    show "live (nodes s' ! (n + 1)) \<and> live (nodes s' ! (n + 2)) \<and> live (nodes s' ! (n + 12))"
      by (simp add: s' silenced_other)
  next
    fix i
    assume "i \<in> set (chordOscillators s')"
    then show "live (nodes s' ! i) \<and> \<not> in_session s' i" by (simp add: s')
  qed
qed

lemma reachable_sources_live: "reachable s \<Longrightarrow> sources_live s"
proof (induction rule: reachable.induct)
  case (first_render rv)
  show ?case by (simp add: sources_live_def initial_engine_def null_nodes_def)
next
  case (effect s rate)
  from effect.hyps(1) have inv: "handle_ok s" "chords_ok s"
    by (simp_all add: reachable_invariant)
  have "live (nodes (useEffect_mount rate s) ! i) = live (nodes s ! i)" if "i < length (nodes s)" for i
    using that by (simp add: useEffect_mount_eq Let_def nth_append)
  with mount_frame[of s rate] show ?case
    by (intro sources_live_frame[OF effect.IH inv]) simp_all
next
  case (called s c s')
  from called.hyps(1) have "handle_ok s" "chords_ok s"
    by (simp_all add: reachable_invariant)
  from api_call_sources_live[OF called.IH this called.hyps(2)] show ?case .
next
  case (clock s ctx t)
  then show ?case
    by (auto simp: sources_live_def in_session_def split: option.splits)
qed

section \<open>Rounding to doubles and the levels of the noise mix\<close>

lemma round_half_even_near: "\<bar>of_int (round_half_even y) - y\<bar> \<le> 1 / 2"
  unfolding round_half_even_def Let_def by (auto simp: abs_if) linarith+

lemma exponent_eq:
  assumes "2 powr of_int e \<le> \<bar>x\<bar>" and "\<bar>x\<bar> < 2 powr (of_int e + 1)" and "- 1022 \<le> e"
  shows "exponent x = e"
proof -
  from assms(1) have "0 < \<bar>x\<bar>" by (smt (verit) powr_gt_zero)
  then have "\<lfloor>log 2 \<bar>x\<bar>\<rfloor> = e"
    using assms(1,2) by (simp add: floor_log_eq_powr_iff)
  with assms(3) show ?thesis by (simp add: exponent_def)
qed

lemma double_eq:
  assumes "2 powr of_int e \<le> \<bar>x\<bar>" and "\<bar>x\<bar> < 2 powr (of_int e + 1)" and "- 1022 \<le> e"
  shows "double x = of_int (round_half_even (x * 2 powr (52 - of_int e))) * 2 powr (of_int e - 52)"
proof -
  from assms(1) have "x \<noteq> 0" by (smt (verit) powr_gt_zero)
  with exponent_eq[OF assms] show ?thesis by (simp add: double_def)
qed

lemma double_error:
  assumes "x \<noteq> 0"
  shows "\<bar>double x - x\<bar> \<le> 2 powr (of_int (exponent x) - 53)"
proof -
  define e where "e = exponent x"
  define y where "y = x * 2 powr (52 - of_int e)"
  have x: "x = y * 2 powr (of_int e - 52)"
    by (simp add: y_def powr_add[symmetric])
  have "double x = of_int (round_half_even y) * 2 powr (of_int e - 52)"
    using assms by (simp add: double_def e_def y_def)
  moreover note x
  ultimately have "double x - x = (of_int (round_half_even y) - y) * 2 powr (of_int e - 52)"
    by (simp only: left_diff_distrib)
  then have "\<bar>double x - x\<bar> = \<bar>of_int (round_half_even y) - y\<bar> * 2 powr (of_int e - 52)"
    by (simp add: abs_mult)
  also have "\<dots> \<le> 1 / 2 * 2 powr (of_int e - 52)"
    by (intro mult_right_mono round_half_even_near) simp
  also have "\<dots> = 2 powr (of_int e - 53)"
    by (simp add: powr_diff)
  finally show ?thesis by (simp add: e_def)
qed


lemma round_half_even_eq:
  assumes "of_int k - 1 / 2 < y" and "y < of_int k + 1 / 2"
  shows "round_half_even y = k"
proof -
  have "\<bar>of_int (round_half_even y) - y\<bar> \<le> 1 / 2" by (rule round_half_even_near)
  with assms have "\<bar>(of_int (round_half_even y) :: real) - of_int k\<bar> < 1" by linarith
  then have "\<bar>round_half_even y - k\<bar> < 1"
    by (metis of_int_abs of_int_diff of_int_less_1_iff)
  then show ?thesis by simp
qed

lemma powr_neg_nat: "2 powr (- real n) = 1 / 2 ^ n"
  by (simp add: powr_minus powr_realpow inverse_eq_divide)

lemma double_val:
  assumes "1 \<le> x * 2 ^ n" and "x * 2 ^ n < 2" and "n \<le> 1022"
    and "of_int k - 1 / 2 < x * 2 ^ (n + 52)" and "x * 2 ^ (n + 52) < of_int k + 1 / 2"
  shows "double x = of_int k / 2 ^ (n + 52)"
proof -
  have pos: "0 < x"
    using assms(1) by (smt (verit) mult_le_0_iff zero_le_power)
  have p: "(2::real) powr of_int (- int n) = 1 / 2 ^ n"
    using powr_neg_nat[of n] by simp
  have "(2::real) powr (- real n + 1) = 2 powr (- real n) * 2 powr 1"
    by (rule powr_add)
  then have q: "(2::real) powr (of_int (- int n) + 1) = 2 / 2 ^ n"
    by (simp add: powr_neg_nat)
  have "2 powr of_int (- int n) \<le> \<bar>x\<bar>"
    using assms(1) pos unfolding p by (simp add: field_simps)
  moreover have "\<bar>x\<bar> < 2 powr (of_int (- int n) + 1)"
    using assms(2) pos unfolding q by (simp add: field_simps)
  moreover have "- 1022 \<le> - int n" using assms(3) by simp
  ultimately have d: "double x = of_int (round_half_even (x * 2 powr (52 - of_int (- int n))))
      * 2 powr (of_int (- int n) - 52)"
    by (rule double_eq)
  have a: "2 powr (52 - of_int (- int n)) = (2::real) ^ (n + 52)"
    using powr_realpow[of "2::real" "n + 52"] by (simp add: add.commute)
  have b: "2 powr (of_int (- int n) - 52) = 1 / (2::real) ^ (n + 52)"
    using powr_neg_nat[of "n + 52"] by (simp add: algebra_simps)
  have "round_half_even (x * 2 ^ (n + 52)) = k"
    using assms(4,5) by (rule round_half_even_eq)
  then show ?thesis unfolding d a b by simp
qed

lemma double_error_small:
  assumes "\<bar>x\<bar> * 2 ^ n < 2" and "n \<le> 1022"
  shows "\<bar>double x - x\<bar> \<le> 1 / 2 ^ (n + 53)"
proof (cases "x = 0")
  case True
  then show ?thesis by (simp add: double_def)
next
  case False
  then have pos: "0 < \<bar>x\<bar>" by simp
  have "(2::real) powr (- real n + 1) = 2 powr (- real n) * 2 powr 1"
    by (rule powr_add)
  then have q: "2 powr (- real n + 1) = 2 / 2 ^ n"
    by (simp add: powr_neg_nat)
  have "\<bar>x\<bar> < 2 powr (- real n + 1)"
    using assms(1) unfolding q by (simp add: field_simps)
  then have "log 2 \<bar>x\<bar> < - real n + 1"
    using pos by (simp add: log_less_iff)
  then have "log 2 \<bar>x\<bar> < of_int (- int n + 1)" by simp
  then have "\<lfloor>log 2 \<bar>x\<bar>\<rfloor> < - int n + 1" by (simp only: floor_less_iff)
  then have e: "exponent x \<le> - int n"
    using assms(2) by (simp add: exponent_def)
  have "\<bar>double x - x\<bar> \<le> 2 powr (of_int (exponent x) - 53)"
    using False by (rule double_error)
  also have "\<dots> \<le> 2 powr (of_int (- int n) - 53)"
    using e by (simp add: powr_mono)
  also have "\<dots> = 1 / 2 ^ (n + 53)"
    using powr_neg_nat[of "n + 53"] by (simp add: algebra_simps)
  finally show ?thesis .
qed

lemma double_three_tenths: "double (3 / 10) = 5404319552844595 / 2 ^ 54"
  using double_val[of "3 / 10" 2 5404319552844595] by simp

lemma double_one_tenth: "double (1 / 10) = 7205759403792794 / 2 ^ 56"
  using double_val[of "1 / 10" 4 7205759403792794] by simp

lemma tone_one_tenth:
  "double (double (1 - double (1 / 10)) * double (3 / 10)) = 4863887597560136 / 2 ^ 54"
proof -
  have a: "double (1 - double (1 / 10)) = 8106479329266893 / 2 ^ 53"
    unfolding double_one_tenth
    using double_val[of "1 - 7205759403792794 / 2 ^ 56" 1 8106479329266893] by simp
  show ?thesis
    unfolding a double_three_tenths
    using double_val[of "8106479329266893 / 2 ^ 53 * (5404319552844595 / 2 ^ 54)" 2 4863887597560136]
    by simp
qed

lemma noise_one_tenth:
  "double (double (1 / 10) * double (3 / 10)) = 8646911284551352 / 2 ^ 58"
  unfolding double_one_tenth double_three_tenths
  using double_val[of "7205759403792794 / 2 ^ 56 * (5404319552844595 / 2 ^ 54)" 6 8646911284551352]
  by simp

lemma round_half_even_tie:
  "round_half_even (of_int f + 1 / 2) = (if even f then f else f + 1)"
proof -
  have "\<lfloor>(of_int f :: real) + 1 / 2\<rfloor> = f" by linarith
  then show ?thesis by (simp add: round_half_even_def Let_def)
qed

lemma double_val_tie:
  assumes "1 \<le> x * 2 ^ n" and "x * 2 ^ n < 2" and "n \<le> 1022"
    and "x * 2 ^ (n + 52) = of_int f + 1 / 2"
  shows "double x = of_int (if even f then f else f + 1) / 2 ^ (n + 52)"
proof -
  have pos: "0 < x"
    using assms(1) by (smt (verit) mult_le_0_iff zero_le_power)
  have p: "(2::real) powr of_int (- int n) = 1 / 2 ^ n"
    using powr_neg_nat[of n] by simp
  have "(2::real) powr (- real n + 1) = 2 powr (- real n) * 2 powr 1"
    by (rule powr_add)
  then have q: "(2::real) powr (of_int (- int n) + 1) = 2 / 2 ^ n"
    by (simp add: powr_neg_nat)
  have "2 powr of_int (- int n) \<le> \<bar>x\<bar>"
    using assms(1) pos unfolding p by (simp add: field_simps)
  moreover have "\<bar>x\<bar> < 2 powr (of_int (- int n) + 1)"
    using assms(2) pos unfolding q by (simp add: field_simps)
  moreover have "- 1022 \<le> - int n" using assms(3) by simp
  ultimately have d: "double x = of_int (round_half_even (x * 2 powr (52 - of_int (- int n))))
      * 2 powr (of_int (- int n) - 52)"
    by (rule double_eq)
  have a: "2 powr (52 - of_int (- int n)) = (2::real) ^ (n + 52)"
    using powr_realpow[of "2::real" "n + 52"] by (simp add: add.commute)
  have b: "2 powr (of_int (- int n) - 52) = 1 / (2::real) ^ (n + 52)"
    using powr_neg_nat[of "n + 52"] by (simp add: algebra_simps)
  show ?thesis unfolding d a b assms(4) round_half_even_tie by simp
qed

lemma sum_one_tenth:
  "double (4863887597560136 / 2 ^ 54 + 8646911284551352 / 2 ^ 58) = 5404319552844596 / 2 ^ 54"
  using double_val_tie[of "4863887597560136 / 2 ^ 54 + 8646911284551352 / 2 ^ 58" 2 5404319552844595]
  by simp

lemma tone_level_error:
  assumes "0 \<le> m" and "m \<le> 1"
  shows "\<bar>double (double (1 - m) * double (3 / 10)) - (1 - m) * (3 / 10)\<bar> \<le> 1 / 2 ^ 53"
proof -
  define a where "a = double (1 - m)"
  define c :: real where "c = 5404319552844595 / 2 ^ 54"
  have "\<bar>double (1 - m) - (1 - m)\<bar> \<le> 1 / 2 ^ (0 + 53)"
    using assms by (intro double_error_small) auto
  then have h2: "\<bar>a - (1 - m)\<bar> \<le> 1 / 2 ^ 53" by (simp add: a_def)
  have ac: "\<bar>a * c\<bar> = \<bar>a\<bar> * c" by (simp add: abs_mult c_def)
  have "\<bar>a\<bar> \<le> 1 + 1 / 2 ^ 53" using h2 assms by linarith
  then have "\<bar>a * c\<bar> * 2 ^ 2 < 2" unfolding ac c_def by simp
  then have "\<bar>double (a * c) - a * c\<bar> \<le> 1 / 2 ^ (2 + 53)"
    by (rule double_error_small) simp
  then have h1: "\<bar>double (a * c) - a * c\<bar> \<le> 1 / 2 ^ 55" by simp
  define u where "u = double (a * c) - a * c"
  define v where "v = (a - (1 - m)) * c"
  define w where "w = (1 - m) * (c - 3 / 10)"
  define b where "b = 1 / 2 ^ 53 * c"
  have tri: "\<bar>u + v + w\<bar> \<le> \<bar>u\<bar> + \<bar>v\<bar> + \<bar>w\<bar>" by linarith
  have eq: "double (a * c) - (1 - m) * (3 / 10) = u + v + w"
    by (simp add: algebra_simps u_def v_def w_def)
  define k :: real where "k = 1 / 2 ^ 55"
  define d where "d = \<bar>c - 3 / 10\<bar>"
  have "\<bar>(a - (1 - m)) * c\<bar> \<le> 1 / 2 ^ 53 * c"
  proof -
    have "\<bar>a - (1 - m)\<bar> * c \<le> 1 / 2 ^ 53 * c"
      using h2 by (rule mult_right_mono) (simp add: c_def)
    moreover have "0 \<le> c" by (simp add: c_def)
    then have "\<bar>(a - (1 - m)) * c\<bar> = \<bar>a - (1 - m)\<bar> * c"
      by (simp only: abs_mult abs_of_nonneg)
    ultimately show ?thesis by simp
  qed
  moreover have "\<bar>(1 - m) * (c - 3 / 10)\<bar> \<le> 1 * \<bar>c - 3 / 10\<bar>"
    unfolding abs_mult using assms by (intro mult_right_mono) auto
  moreover note h1
  ultimately have "\<bar>v\<bar> \<le> b" and "\<bar>w\<bar> \<le> d" and "\<bar>u\<bar> \<le> k"
    by (simp_all add: u_def v_def w_def b_def d_def k_def)
  with tri have "\<bar>u + v + w\<bar> \<le> k + b + d" by linarith
  then have "\<bar>double (a * c) - (1 - m) * (3 / 10)\<bar>
      \<le> 1 / 2 ^ 55 + 1 / 2 ^ 53 * c + \<bar>c - 3 / 10\<bar>"
    unfolding eq k_def b_def d_def .
  also have "\<dots> \<le> 1 / 2 ^ 53" by (simp add: c_def)
  finally show ?thesis by (simp add: a_def c_def double_three_tenths)
qed


lemma noise_mix_levels:
  assumes "0 \<le> m" and "m \<le> 1"
  shows "\<bar>double (m * double (3 / 10)) - m * (3 / 10)\<bar> \<le> 1 / 2 ^ 54"
    and "\<bar>double (double (1 - m) * double (3 / 10)) + double (m * double (3 / 10)) - 3 / 10\<bar>
          \<le> 1 / 2 ^ 53"
proof -
  define a where "a = double (1 - m)"
  define c :: real where "c = 5404319552844595 / 2 ^ 54"
  define T where "T = double (a * c)"
  define N where "N = double (m * c)"
  have "\<bar>double (1 - m) - (1 - m)\<bar> \<le> 1 / 2 ^ (0 + 53)"
    using assms by (intro double_error_small) auto
  then have h2: "\<bar>a - (1 - m)\<bar> \<le> 1 / 9007199254740992" by (simp add: a_def)
  have ac: "\<bar>a * c\<bar> = \<bar>a\<bar> * c" by (simp add: abs_mult c_def)
  have "\<bar>a\<bar> \<le> 1 + 1 / 9007199254740992" using h2 assms by linarith
  then have "\<bar>a * c\<bar> * 2 ^ 2 < 2" unfolding ac c_def by simp
  then have "\<bar>double (a * c) - a * c\<bar> \<le> 1 / 2 ^ (2 + 53)"
    by (rule double_error_small) simp
  then have h1: "\<bar>T - a * (5404319552844595 / 18014398509481984)\<bar> \<le> 1 / 36028797018963968"
    by (simp add: T_def c_def)
  have "\<bar>m * c\<bar> * 2 ^ 2 < 2" using assms by (simp add: c_def abs_mult)
  then have "\<bar>double (m * c) - m * c\<bar> \<le> 1 / 2 ^ (2 + 53)"
    by (rule double_error_small) simp
  then have h3: "\<bar>N - m * (5404319552844595 / 18014398509481984)\<bar> \<le> 1 / 36028797018963968"
    by (simp add: N_def c_def)
  have "\<bar>N - m * (3 / 10)\<bar> \<le> 1 / 18014398509481984"
    using h3 assms by linarith
  then show "\<bar>double (m * double (3 / 10)) - m * (3 / 10)\<bar> \<le> 1 / 2 ^ 54"
    by (simp add: N_def c_def double_three_tenths)
  have "\<bar>T + N - 3 / 10\<bar> \<le> 1 / 9007199254740992"
    using h1 h2 h3 assms by linarith
  then show "\<bar>double (double (1 - m) * double (3 / 10)) + double (m * double (3 / 10)) - 3 / 10\<bar>
          \<le> 1 / 2 ^ 53"
    by (simp add: T_def N_def a_def c_def double_three_tenths)
qed


lemma updateNoiseMix_session:
  assumes "binauralNodes s = session_handle n" and "n + 13 \<le> length (nodes s)"
    and "audioContext s = Some ctx"
  shows "\<exists>s'. updateNoiseMix mix s = Inr s'
              \<and> binauralNodes s' = binauralNodes s
              \<and> events (gain (nodes s' ! (n + 5))) =
                  events (gain (nodes s ! (n + 5)))
                    @ [SetValueAtTime (double (double (1 - mix) * double 0.3)) (currentTime ctx)]
              \<and> events (gain (nodes s' ! (n + 6))) =
                  events (gain (nodes s ! (n + 6)))
                    @ [SetValueAtTime (double (mix * double 0.3)) (currentTime ctx)]
              \<and> value_at (gain (nodes s' ! (n + 5))) (currentTime ctx)
                  = double (double (1 - mix) * double 0.3)
              \<and> value_at (gain (nodes s' ! (n + 6))) (currentTime ctx)
                  = double (mix * double 0.3)"
  using assms
  by (simp add: updateNoiseMix_def session_handle_def Let_def update_node_def)

lemma startBinaural_levels:
  assumes "handle_ok s" and "audioContext s = Some ctx" and "analyser s = Some a"
  shows "\<exists>s'. startBinaural baseFreq beatFreq noiseMix panValue waveform s = Inr s'
          \<and> binauralNodes s' = session_handle (length (nodes s))
          \<and> length (nodes s') = length (nodes s) + 13
          \<and> kind (nodes s' ! (length (nodes s) + 5)) = GainNode
          \<and> kind (nodes s' ! (length (nodes s) + 6)) = GainNode
          \<and> gain (nodes s' ! (length (nodes s) + 5)) =
              \<lparr>param_value = double (double (1 - noiseMix) * double 0.3), events = []\<rparr>
          \<and> gain (nodes s' ! (length (nodes s) + 6)) =
              \<lparr>param_value = double (noiseMix * double 0.3), events = []\<rparr>"
  unfolding startBinaural_eq[OF assms]
  by (simp add: session_graph_def nth_append new_node_def)

section \<open>One session at a time\<close>

lemma session_graph_kinds:
  "map kind (session_graph n a baseFreq beatFreq noiseMix panValue waveform b) = session_kinds"
  by (simp add: session_graph_def session_kinds_def new_node_def)

lemma session_graph_wiring:
  "map outputs (session_graph n a baseFreq beatFreq noiseMix panValue waveform b) = session_wiring n a"
  by (simp add: session_graph_def session_wiring_def new_node_def)

lemma length_session_graph [simp]:
  "length (session_graph n a baseFreq beatFreq noiseMix panValue waveform b) = 13"
  by (simp add: session_graph_def)

lemma session_graph_nth:
  assumes "k < 13"
  shows "kind (session_graph n a baseFreq beatFreq noiseMix panValue waveform b ! k) = session_kinds ! k"
    and "outputs (session_graph n a baseFreq beatFreq noiseMix panValue waveform b ! k)
           = session_wiring n a ! k"
  using assms
    nth_map[of k "session_graph n a baseFreq beatFreq noiseMix panValue waveform b" kind]
    nth_map[of k "session_graph n a baseFreq beatFreq noiseMix panValue waveform b" outputs]
  by (simp_all add: session_graph_kinds session_graph_wiring)

lemma session_wiredI:
  assumes "\<And>n. merger (binauralNodes s) = Some n \<Longrightarrow>
      \<exists>a. analyser s = Some a \<and> audioContext s \<noteq> None \<and> loop (nodes s ! (n + 12))
        \<and> (\<forall>k<13. kind (nodes s ! (n + k)) = session_kinds ! k
                  \<and> outputs (nodes s ! (n + k)) = session_wiring n a ! k)"
  shows "session_wired s"
  using assms by (auto simp: session_wired_def list_all_iff split: option.splits)

lemma session_wiredD:
  assumes "session_wired s" and "merger (binauralNodes s) = Some n"
  obtains a where "analyser s = Some a" and "audioContext s \<noteq> None"
    and "loop (nodes s ! (n + 12))"
    and "\<And>k. k < 13 \<Longrightarrow> kind (nodes s ! (n + k)) = session_kinds ! k"
    and "\<And>k. k < 13 \<Longrightarrow> outputs (nodes s ! (n + k)) = session_wiring n a ! k"
  using assms by (auto simp: session_wired_def list_all_iff split: option.splits)

lemma one_sessionI:
  assumes "\<And>i. i < length (nodes s) \<Longrightarrow> kind (nodes s ! i) = OscillatorNode \<Longrightarrow>
             live (nodes s ! i) \<Longrightarrow>
             leftOsc (binauralNodes s) = Some i \<or> rightOsc (binauralNodes s) = Some i
             \<or> i \<in> set (chordOscillators s)"
    and "\<And>i. i < length (nodes s) \<Longrightarrow> kind (nodes s ! i) = AudioBufferSourceNode \<Longrightarrow>
             loop (nodes s ! i) \<Longrightarrow> live (nodes s ! i) \<Longrightarrow>
             noiseSource (binauralNodes s) = Some i"
    and "\<And>i. i < length (nodes s) \<Longrightarrow> kind (nodes s ! i) = ChannelMergerNode \<Longrightarrow>
             outputs (nodes s ! i) \<noteq> [] \<Longrightarrow> merger (binauralNodes s) = Some i"
    and "\<And>i. i < length (nodes s) \<Longrightarrow> kind (nodes s ! i) = StereoPannerNode \<Longrightarrow>
             outputs (nodes s ! i) \<noteq> [] \<Longrightarrow> panNode (binauralNodes s) = Some i"
    and "\<And>i. i < length (nodes s) \<Longrightarrow> kind (nodes s ! i) = DelayNode \<Longrightarrow>
             outputs (nodes s ! i) \<noteq> [] \<Longrightarrow> delayNode (binauralNodes s) = Some i"
  shows "one_session s"
  unfolding one_session_def list_all_iff using assms by simp

lemma one_sessionD:
  assumes "one_session s" and "i < length (nodes s)"
  shows "kind (nodes s ! i) = OscillatorNode \<Longrightarrow> live (nodes s ! i) \<Longrightarrow>
           leftOsc (binauralNodes s) = Some i \<or> rightOsc (binauralNodes s) = Some i
           \<or> i \<in> set (chordOscillators s)"
    and "kind (nodes s ! i) = AudioBufferSourceNode \<Longrightarrow> loop (nodes s ! i) \<Longrightarrow>
           live (nodes s ! i) \<Longrightarrow> noiseSource (binauralNodes s) = Some i"
    and "kind (nodes s ! i) = ChannelMergerNode \<Longrightarrow> outputs (nodes s ! i) \<noteq> [] \<Longrightarrow>
           merger (binauralNodes s) = Some i"
    and "kind (nodes s ! i) = StereoPannerNode \<Longrightarrow> outputs (nodes s ! i) \<noteq> [] \<Longrightarrow>
           panNode (binauralNodes s) = Some i"
    and "kind (nodes s ! i) = DelayNode \<Longrightarrow> outputs (nodes s ! i) \<noteq> [] \<Longrightarrow>
           delayNode (binauralNodes s) = Some i"
  using assms unfolding one_session_def list_all_iff by simp_all


lemma session_kinds_nth:
  assumes "k < 13"
  shows "(session_kinds ! k = OscillatorNode) = (k = 1 \<or> k = 2)"
    and "(session_kinds ! k = AudioBufferSourceNode) = (k = 12)"
    and "(session_kinds ! k = ChannelMergerNode) = (k = 0)"
    and "(session_kinds ! k = StereoPannerNode) = (k = 7)"
    and "(session_kinds ! k = DelayNode) = (k = 8)"
proof -
  from assms have "k \<in> set [0..<13]" by simp
  then have k: "k \<in> {0, 1, 2, 3, 4, 5, 6, 7, 8, 9, 10, 11, 12}"
    unfolding thirteen by simp
  from k show "(session_kinds ! k = OscillatorNode) = (k = 1 \<or> k = 2)"
    by (auto simp: session_kinds_def)
  from k show "(session_kinds ! k = AudioBufferSourceNode) = (k = 12)"
    by (auto simp: session_kinds_def)
  from k show "(session_kinds ! k = ChannelMergerNode) = (k = 0)"
    by (auto simp: session_kinds_def)
  from k show "(session_kinds ! k = StereoPannerNode) = (k = 7)"
    by (auto simp: session_kinds_def)
  from k show "(session_kinds ! k = DelayNode) = (k = 8)"
    by (auto simp: session_kinds_def)
qed

lemma stopped_store_nth:
  assumes "handle_ok s" and "i < length (nodes s)"
  shows "kind (stopped_store s ! i) = kind (nodes s ! i)"
    and "loop (stopped_store s ! i) = loop (nodes s ! i)"
    and "started (stopped_store s ! i) = started (nodes s ! i)"
    and "stopped (nodes s ! i) \<Longrightarrow> stopped (stopped_store s ! i)"
    and "in_session s i \<Longrightarrow> outputs (stopped_store s ! i) = []"
    and "leftOsc (binauralNodes s) = Some i \<or> rightOsc (binauralNodes s) = Some i
         \<or> noiseSource (binauralNodes s) = Some i \<Longrightarrow> stopped (stopped_store s ! i)"
    and "\<not> in_session s i \<Longrightarrow> stopped_store s ! i = nodes s ! i"
    and "merger (binauralNodes s) = Some i \<or> panNode (binauralNodes s) = Some i
         \<or> delayNode (binauralNodes s) = Some i \<Longrightarrow> in_session s i"
proof -
  show "kind (stopped_store s ! i) = kind (nodes s ! i)"
    "loop (stopped_store s ! i) = loop (nodes s ! i)"
    "started (stopped_store s ! i) = started (nodes s ! i)"
    "stopped (nodes s ! i) \<Longrightarrow> stopped (stopped_store s ! i)"
    "in_session s i \<Longrightarrow> outputs (stopped_store s ! i) = []"
    using assms(2)
    by (simp_all add: stopped_store_def in_session_def nth_retire split: option.splits)
  show "\<not> in_session s i \<Longrightarrow> stopped_store s ! i = nodes s ! i"
    using assms(2)
    by (auto simp: stopped_store_def in_session_def nth_retire split: option.splits)
  show "leftOsc (binauralNodes s) = Some i \<or> rightOsc (binauralNodes s) = Some i
         \<or> noiseSource (binauralNodes s) = Some i \<Longrightarrow> stopped (stopped_store s ! i)"
  proof (cases "merger (binauralNodes s)")
    case None
    with assms(1) have "binauralNodes s = null_nodes" by (simp add: handle_ok_def)
    then show "leftOsc (binauralNodes s) = Some i \<or> rightOsc (binauralNodes s) = Some i
         \<or> noiseSource (binauralNodes s) = Some i \<Longrightarrow> stopped (stopped_store s ! i)"
      by (simp add: null_nodes_def)
  next
    case (Some n)
    with assms(1) have h: "binauralNodes s = session_handle n" by (simp add: handle_ok_def)
    assume "leftOsc (binauralNodes s) = Some i \<or> rightOsc (binauralNodes s) = Some i
         \<or> noiseSource (binauralNodes s) = Some i"
    then have "i = n + 1 \<or> i = n + 2 \<or> i = n + 12"
      unfolding h by (auto simp: session_handle_def)
    then show "stopped (stopped_store s ! i)"
      using assms(2) Some by (auto simp: stopped_store_def nth_retire)
  qed
  show "merger (binauralNodes s) = Some i \<or> panNode (binauralNodes s) = Some i
         \<or> delayNode (binauralNodes s) = Some i \<Longrightarrow> in_session s i"
  proof (cases "merger (binauralNodes s)")
    case None
    with assms(1) have "binauralNodes s = null_nodes" by (simp add: handle_ok_def)
    then show "merger (binauralNodes s) = Some i \<or> panNode (binauralNodes s) = Some i
         \<or> delayNode (binauralNodes s) = Some i \<Longrightarrow> in_session s i"
      by (simp add: null_nodes_def)
  next
    case (Some n)
    with assms(1) have h: "binauralNodes s = session_handle n" by (simp add: handle_ok_def)
    assume "merger (binauralNodes s) = Some i \<or> panNode (binauralNodes s) = Some i
         \<or> delayNode (binauralNodes s) = Some i"
    then have "i = n \<or> i = n + 7 \<or> i = n + 8"
      unfolding h by (auto simp: session_handle_def)
    then show "in_session s i"
      using Some by (auto simp: in_session_def)
  qed
qed

lemma stopChord_forEach_nth:
  "i < length (nodes s) \<Longrightarrow>
   nodes (stopChord_forEach xs s) ! i =
     (if i \<in> set xs \<and> started (nodes s ! i)
      then (nodes s ! i)\<lparr>stopped := True, outputs := []\<rparr> else nodes s ! i)"
proof (induction xs arbitrary: s)
  case Nil
  show ?case by simp
next
  case (Cons osc xs)
  define s1 where "s1 = (if started (nodes s ! osc)
        then update_node osc (\<lambda>n. n\<lparr>stopped := True, outputs := []\<rparr>) s else s)"
  have len: "length (nodes s1) = length (nodes s)" by (simp add: s1_def)
  have n1: "nodes s1 ! i = (if i = osc \<and> started (nodes s ! i)
      then (nodes s ! i)\<lparr>stopped := True, outputs := []\<rparr> else nodes s ! i)"
    using Cons.prems by (auto simp: s1_def update_node_def)
  have st: "started (nodes s1 ! i) = started (nodes s ! i)"
    unfolding n1 by simp
  have "nodes (stopChord_forEach (osc # xs) s) ! i = nodes (stopChord_forEach xs s1) ! i"
    by (simp only: stopChord_forEach.simps stopChord_step s1_def[symmetric])
  also have "\<dots> = (if i \<in> set xs \<and> started (nodes s1 ! i)
      then (nodes s1 ! i)\<lparr>stopped := True, outputs := []\<rparr> else nodes s1 ! i)"
    using Cons.prems len by (intro Cons.IH) simp
  also have "\<dots> = (if i \<in> set (osc # xs) \<and> started (nodes s ! i)
      then (nodes s ! i)\<lparr>stopped := True, outputs := []\<rparr> else nodes s ! i)"
    unfolding st n1 by auto
  finally show ?case .
qed

lemma silenced_nth:
  assumes "chords_ok s" and "i < length (nodes s)"
  shows "kind (silenced s ! i) = kind (nodes s ! i)"
    and "loop (silenced s ! i) = loop (nodes s ! i)"
    and "stopped (nodes s ! i) \<Longrightarrow> stopped (silenced s ! i)"
    and "i \<in> set (chordOscillators s) \<Longrightarrow> stopped (silenced s ! i) \<and> outputs (silenced s ! i) = []"
    and "outputs (silenced s ! i) \<noteq> [] \<Longrightarrow> outputs (silenced s ! i) = outputs (nodes s ! i)"
  using assms
  by (auto simp: silenced_def stopChord_forEach_nth chords_ok_def list_all_iff)

lemma same_play_refl [simp]: "same_play nd nd"
  by (simp add: same_play_def)

lemma same_play_fields [simp]:
  "same_play (nd\<lparr>frequency := x\<rparr>) nd"
  "same_play (nd\<lparr>gain := y\<rparr>) nd"
  "same_play (nd\<lparr>pan := z\<rparr>) nd"
  "same_play (nd\<lparr>osc_type := w\<rparr>) nd"
  by (simp_all add: same_play_def)

lemma same_play_trans: "same_play a b \<Longrightarrow> same_play b c \<Longrightarrow> same_play a c"
  by (simp add: same_play_def)

lemma same_playD:
  assumes "same_play nd' nd"
  shows "kind nd' = kind nd" and "loop nd' = loop nd" and "live nd' = live nd"
    and "outputs nd' = outputs nd"
  using assms by (simp_all add: same_play_def live_def)

lemma same_play_update_node:
  assumes "\<And>nd. same_play (f nd) nd"
  shows "same_play (nodes (update_node j f s) ! i) (nodes s ! i)"
proof (cases "j < length (nodes s)")
  case True
  then show ?thesis using assms by (cases "j = i") (simp_all add: update_node_def)
next
  case False
  then show ?thesis by (simp add: update_node_def list_update_beyond)
qed

lemma same_play_update_node2:
  assumes "\<And>nd. same_play (f nd) nd" and "\<And>nd. same_play (g nd) nd"
  shows "same_play (nodes (update_node j f (update_node k g s)) ! i) (nodes s ! i)"
  by (rule same_play_trans[OF same_play_update_node same_play_update_node]) (fact assms)+

lemma one_session_frame:
  assumes one: "one_session s"
    and h: "binauralNodes s' = binauralNodes s" and c: "chordOscillators s' = chordOscillators s"
    and old: "\<And>i. i < length (nodes s) \<Longrightarrow> same_play (nodes s' ! i) (nodes s ! i)"
    and new: "\<And>i. length (nodes s) \<le> i \<Longrightarrow> i < length (nodes s') \<Longrightarrow>
        kind (nodes s' ! i) \<noteq> OscillatorNode \<and> kind (nodes s' ! i) \<noteq> ChannelMergerNode
        \<and> kind (nodes s' ! i) \<noteq> StereoPannerNode \<and> kind (nodes s' ! i) \<noteq> DelayNode
        \<and> \<not> loop (nodes s' ! i)"
  shows "one_session s'"
proof (rule one_sessionI)
  fix i
  assume i: "i < length (nodes s')"
  show "leftOsc (binauralNodes s') = Some i \<or> rightOsc (binauralNodes s') = Some i
        \<or> i \<in> set (chordOscillators s')"
    if "kind (nodes s' ! i) = OscillatorNode" "live (nodes s' ! i)"
  proof (cases "i < length (nodes s)")
    case True
    from same_playD[OF old[OF True]] that one_sessionD(1)[OF one True] show ?thesis
      by (simp add: h c)
  next
    case False
    with new[of i] i that show ?thesis by simp
  qed
  show "noiseSource (binauralNodes s') = Some i"
    if "kind (nodes s' ! i) = AudioBufferSourceNode" "loop (nodes s' ! i)" "live (nodes s' ! i)"
  proof (cases "i < length (nodes s)")
    case True
    from same_playD[OF old[OF True]] that one_sessionD(2)[OF one True] show ?thesis
      by (simp add: h c)
  next
    case False
    with new[of i] i that show ?thesis by simp
  qed
  show "merger (binauralNodes s') = Some i"
    if "kind (nodes s' ! i) = ChannelMergerNode" "outputs (nodes s' ! i) \<noteq> []"
  proof (cases "i < length (nodes s)")
    case True
    from same_playD[OF old[OF True]] that one_sessionD(3)[OF one True] show ?thesis
      by (simp add: h c)
  next
    case False
    with new[of i] i that show ?thesis by simp
  qed
  show "panNode (binauralNodes s') = Some i"
    if "kind (nodes s' ! i) = StereoPannerNode" "outputs (nodes s' ! i) \<noteq> []"
  proof (cases "i < length (nodes s)")
    case True
    from same_playD[OF old[OF True]] that one_sessionD(4)[OF one True] show ?thesis
      by (simp add: h c)
  next
    case False
    with new[of i] i that show ?thesis by simp
  qed
  show "delayNode (binauralNodes s') = Some i"
    if "kind (nodes s' ! i) = DelayNode" "outputs (nodes s' ! i) \<noteq> []"
  proof (cases "i < length (nodes s)")
    case True
    from same_playD[OF old[OF True]] that one_sessionD(5)[OF one True] show ?thesis
      by (simp add: h c)
  next
    case False
    with new[of i] i that show ?thesis by simp
  qed
qed

lemma session_wired_frame:
  assumes wired: "session_wired s" and ok: "handle_ok s"
    and h: "binauralNodes s' = binauralNodes s" and a: "analyser s' = analyser s"
    and ctx: "audioContext s \<noteq> None \<Longrightarrow> audioContext s' \<noteq> None"
    and old: "\<And>i. i < length (nodes s) \<Longrightarrow> same_play (nodes s' ! i) (nodes s ! i)"
  shows "session_wired s'"
proof (rule session_wiredI)
  fix n
  assume "merger (binauralNodes s') = Some n"
  then have m: "merger (binauralNodes s) = Some n" by (simp add: h)
  with ok have len: "n + 13 \<le> length (nodes s)" by (simp add: handle_ok_def)
  from wired m obtain a' where w: "analyser s = Some a'" "audioContext s \<noteq> None"
    "loop (nodes s ! (n + 12))"
    "\<And>k. k < 13 \<Longrightarrow> kind (nodes s ! (n + k)) = session_kinds ! k"
    "\<And>k. k < 13 \<Longrightarrow> outputs (nodes s ! (n + k)) = session_wiring n a' ! k"
    by (rule session_wiredD) blast
  have same: "same_play (nodes s' ! (n + k)) (nodes s ! (n + k))" if "k < 13" for k
    using that len by (intro old) simp
  have "loop (nodes s' ! (n + 12))"
    using same_playD(2)[OF same[of 12]] w(3) by simp
  moreover have "kind (nodes s' ! (n + k)) = session_kinds ! k
      \<and> outputs (nodes s' ! (n + k)) = session_wiring n a' ! k" if "k < 13" for k
    using same_playD(1,4)[OF same[OF that]] w(4,5)[OF that] by simp
  ultimately show "\<exists>a. analyser s' = Some a \<and> audioContext s' \<noteq> None
      \<and> loop (nodes s' ! (n + 12))
      \<and> (\<forall>k<13. kind (nodes s' ! (n + k)) = session_kinds ! k
                \<and> outputs (nodes s' ! (n + k)) = session_wiring n a ! k)"
    using w(1,2) a ctx by auto
qed

lemma stopped_store_owned:
  assumes one: "one_session s" and ok: "handle_ok s" and i: "i < length (nodes s)"
  shows "kind (stopped_store s ! i) = OscillatorNode \<Longrightarrow> live (stopped_store s ! i) \<Longrightarrow>
           i \<in> set (chordOscillators s)"
    and "kind (stopped_store s ! i) = AudioBufferSourceNode \<Longrightarrow> loop (stopped_store s ! i) \<Longrightarrow>
           \<not> live (stopped_store s ! i)"
    and "kind (stopped_store s ! i) = ChannelMergerNode \<or> kind (stopped_store s ! i) = StereoPannerNode
         \<or> kind (stopped_store s ! i) = DelayNode \<Longrightarrow> outputs (stopped_store s ! i) = []"
proof -
  note st = stopped_store_nth[OF ok i]
  have lv: "live (nodes s ! i)" if "live (stopped_store s ! i)"
    using that st(3,4) by (auto simp: live_def)
  show "i \<in> set (chordOscillators s)"
    if "kind (stopped_store s ! i) = OscillatorNode" "live (stopped_store s ! i)"
  proof -
    from one_sessionD(1)[OF one i] that(1) st(1) lv[OF that(2)]
    have "leftOsc (binauralNodes s) = Some i \<or> rightOsc (binauralNodes s) = Some i
        \<or> i \<in> set (chordOscillators s)" by simp
    moreover have "\<not> (leftOsc (binauralNodes s) = Some i \<or> rightOsc (binauralNodes s) = Some i)"
      using st(6) that(2) by (auto simp: live_def)
    ultimately show ?thesis by blast
  qed
  show "\<not> live (stopped_store s ! i)"
    if "kind (stopped_store s ! i) = AudioBufferSourceNode" "loop (stopped_store s ! i)"
  proof
    assume l: "live (stopped_store s ! i)"
    from one_sessionD(2)[OF one i] that st(1,2) lv[OF l]
    have "noiseSource (binauralNodes s) = Some i" by simp
    with st(6) l show False by (auto simp: live_def)
  qed
  show "outputs (stopped_store s ! i) = []"
    if k: "kind (stopped_store s ! i) = ChannelMergerNode \<or> kind (stopped_store s ! i) = StereoPannerNode
         \<or> kind (stopped_store s ! i) = DelayNode"
  proof (cases "in_session s i")
    case True
    then show ?thesis by (rule st(5))
  next
    case False
    show ?thesis
    proof (rule ccontr)
      assume "outputs (stopped_store s ! i) \<noteq> []"
      with st(7)[OF False] k one_sessionD(3,4,5)[OF one i]
      have "merger (binauralNodes s) = Some i \<or> panNode (binauralNodes s) = Some i
         \<or> delayNode (binauralNodes s) = Some i" by auto
      from st(8)[OF this] False show False by simp
    qed
  qed
qed

lemma silenced_owned:
  assumes one: "one_session s" and ch: "chords_ok s" and i: "i < length (nodes s)"
  shows "kind (silenced s ! i) = OscillatorNode \<Longrightarrow> live (silenced s ! i) \<Longrightarrow>
           leftOsc (binauralNodes s) = Some i \<or> rightOsc (binauralNodes s) = Some i"
    and "kind (silenced s ! i) = AudioBufferSourceNode \<Longrightarrow> loop (silenced s ! i) \<Longrightarrow>
           live (silenced s ! i) \<Longrightarrow> noiseSource (binauralNodes s) = Some i"
    and "kind (silenced s ! i) = ChannelMergerNode \<Longrightarrow> outputs (silenced s ! i) \<noteq> [] \<Longrightarrow>
           merger (binauralNodes s) = Some i"
    and "kind (silenced s ! i) = StereoPannerNode \<Longrightarrow> outputs (silenced s ! i) \<noteq> [] \<Longrightarrow>
           panNode (binauralNodes s) = Some i"
    and "kind (silenced s ! i) = DelayNode \<Longrightarrow> outputs (silenced s ! i) \<noteq> [] \<Longrightarrow>
           delayNode (binauralNodes s) = Some i"
proof -
  note si = silenced_nth[OF ch i]
  have lv: "live (nodes s ! i) \<and> i \<notin> set (chordOscillators s)" if "live (silenced s ! i)"
    using that si(3,4) started_silenced[OF i] by (auto simp: live_def)
  show "leftOsc (binauralNodes s) = Some i \<or> rightOsc (binauralNodes s) = Some i"
    if "kind (silenced s ! i) = OscillatorNode" "live (silenced s ! i)"
    using one_sessionD(1)[OF one i] that(1) si(1) lv[OF that(2)] by simp
  show "noiseSource (binauralNodes s) = Some i"
    if "kind (silenced s ! i) = AudioBufferSourceNode" "loop (silenced s ! i)" "live (silenced s ! i)"
    using one_sessionD(2)[OF one i] that(1,2) si(1,2) lv[OF that(3)] by simp
  show "merger (binauralNodes s) = Some i"
    if "kind (silenced s ! i) = ChannelMergerNode" "outputs (silenced s ! i) \<noteq> []"
    using one_sessionD(3)[OF one i] that si(1) si(5)[OF that(2)] by simp
  show "panNode (binauralNodes s) = Some i"
    if "kind (silenced s ! i) = StereoPannerNode" "outputs (silenced s ! i) \<noteq> []"
    using one_sessionD(4)[OF one i] that si(1) si(5)[OF that(2)] by simp
  show "delayNode (binauralNodes s) = Some i"
    if "kind (silenced s ! i) = DelayNode" "outputs (silenced s ! i) \<noteq> []"
    using one_sessionD(5)[OF one i] that si(1) si(5)[OF that(2)] by simp
qed

lemma start_session:
  assumes one: "one_session s" and ok: "handle_ok s"
    and s': "s' = s\<lparr>nodes := stopped_store s @
               session_graph (length (nodes s)) a baseFreq beatFreq noiseMix panValue waveform b,
             random_pos := p,
             binauralNodes := session_handle (length (nodes s))\<rparr>"
    and ctx: "audioContext s \<noteq> None" and a: "analyser s = Some a"
  shows "one_session s' \<and> session_wired s'"
proof
  let ?g = "session_graph (length (nodes s)) a baseFreq beatFreq noiseMix panValue waveform b"
  have old: "nodes s' ! i = stopped_store s ! i" if "i < length (nodes s)" for i
    using that by (simp add: s' nth_append)
  have new: "nodes s' ! (length (nodes s) + k) = ?g ! k" for k
    by (simp add: s' nth_append)
  have len: "length (nodes s') = length (nodes s) + 13" by (simp add: s')
  have split: "i < length (nodes s) \<or> (\<exists>k<13. i = length (nodes s) + k)"
    if "i < length (nodes s')" for i
  proof (cases "i < length (nodes s)")
    case True
    then show ?thesis by simp
  next
    case False
    with that len have "i - length (nodes s) < 13 \<and> i = length (nodes s) + (i - length (nodes s))"
      by simp
    then show ?thesis by blast
  qed
  show "one_session s'"
  proof (rule one_sessionI)
    fix i
    assume i: "i < length (nodes s')"
    show "leftOsc (binauralNodes s') = Some i \<or> rightOsc (binauralNodes s') = Some i
        \<or> i \<in> set (chordOscillators s')"
      if "kind (nodes s' ! i) = OscillatorNode" "live (nodes s' ! i)"
      using split[OF i]
    proof (elim disjE exE conjE)
      assume l: "i < length (nodes s)"
      from stopped_store_owned(1)[OF one ok l] that old[OF l]
      show ?thesis by (simp add: s')
    next
      fix k assume k: "k < 13" "i = length (nodes s) + k"
      from that(1) have "session_kinds ! k = OscillatorNode"
        unfolding k(2) new session_graph_nth(1)[OF k(1)] .
      then have "k = 1 \<or> k = 2" by (simp add: session_kinds_nth[OF k(1)])
      then show ?thesis by (auto simp: s' session_handle_def k(2))
    qed
    show "noiseSource (binauralNodes s') = Some i"
      if "kind (nodes s' ! i) = AudioBufferSourceNode" "loop (nodes s' ! i)" "live (nodes s' ! i)"
      using split[OF i]
    proof (elim disjE exE conjE)
      assume l: "i < length (nodes s)"
      from stopped_store_owned(2)[OF one ok l] that old[OF l]
      show ?thesis by simp
    next
      fix k assume k: "k < 13" "i = length (nodes s) + k"
      from that(1) have "session_kinds ! k = AudioBufferSourceNode"
        unfolding k(2) new session_graph_nth(1)[OF k(1)] .
      then have "k = 12" by (simp add: session_kinds_nth[OF k(1)])
      then show ?thesis by (simp add: s' session_handle_def k(2))
    qed
    show "merger (binauralNodes s') = Some i"
      if "kind (nodes s' ! i) = ChannelMergerNode" "outputs (nodes s' ! i) \<noteq> []"
      using split[OF i]
    proof (elim disjE exE conjE)
      assume l: "i < length (nodes s)"
      from stopped_store_owned(3)[OF one ok l] that old[OF l]
      show ?thesis by simp
    next
      fix k assume k: "k < 13" "i = length (nodes s) + k"
      from that(1) have "session_kinds ! k = ChannelMergerNode"
        unfolding k(2) new session_graph_nth(1)[OF k(1)] .
      then have "k = 0" by (simp add: session_kinds_nth[OF k(1)])
      then show ?thesis by (simp add: s' session_handle_def k(2))
    qed
    show "panNode (binauralNodes s') = Some i"
      if "kind (nodes s' ! i) = StereoPannerNode" "outputs (nodes s' ! i) \<noteq> []"
      using split[OF i]
    proof (elim disjE exE conjE)
      assume l: "i < length (nodes s)"
      from stopped_store_owned(3)[OF one ok l] that old[OF l]
      show ?thesis by simp
    next
      fix k assume k: "k < 13" "i = length (nodes s) + k"
      from that(1) have "session_kinds ! k = StereoPannerNode"
        unfolding k(2) new session_graph_nth(1)[OF k(1)] .
      then have "k = 7" by (simp add: session_kinds_nth[OF k(1)])
      then show ?thesis by (simp add: s' session_handle_def k(2))
    qed
    show "delayNode (binauralNodes s') = Some i"
      if "kind (nodes s' ! i) = DelayNode" "outputs (nodes s' ! i) \<noteq> []"
      using split[OF i]
    proof (elim disjE exE conjE)
      assume l: "i < length (nodes s)"
      from stopped_store_owned(3)[OF one ok l] that old[OF l]
      show ?thesis by simp
    next
      fix k assume k: "k < 13" "i = length (nodes s) + k"
      from that(1) have "session_kinds ! k = DelayNode"
        unfolding k(2) new session_graph_nth(1)[OF k(1)] .
      then have "k = 8" by (simp add: session_kinds_nth[OF k(1)])
      then show ?thesis by (simp add: s' session_handle_def k(2))
    qed
  qed
  show "session_wired s'"
  proof (rule session_wiredI)
    fix n
    assume "merger (binauralNodes s') = Some n"
    then have n: "n = length (nodes s)" by (simp add: s' session_handle_def)
    have "loop (?g ! 12)" by (simp add: session_graph_def)
    then have "loop (nodes s' ! (n + 12))" unfolding n new .
    moreover have "kind (nodes s' ! (n + k)) = session_kinds ! k
        \<and> outputs (nodes s' ! (n + k)) = session_wiring n a ! k" if "k < 13" for k
      unfolding n new using session_graph_nth[OF that] by simp
    moreover have "analyser s' = Some a" "audioContext s' \<noteq> None"
      using a ctx by (simp_all add: s')
    ultimately show "\<exists>a. analyser s' = Some a \<and> audioContext s' \<noteq> None
        \<and> loop (nodes s' ! (n + 12))
        \<and> (\<forall>k<13. kind (nodes s' ! (n + k)) = session_kinds ! k
                  \<and> outputs (nodes s' ! (n + k)) = session_wiring n a ! k)"
      by blast
  qed
qed

lemma stop_session:
  assumes one: "one_session s" and ok: "handle_ok s"
    and s': "s' = s\<lparr>nodes := stopped_store s, binauralNodes := null_nodes\<rparr>"
  shows "one_session s' \<and> session_wired s'"
proof
  have old: "nodes s' ! i = stopped_store s ! i" for i
    by (simp add: s')
  show "one_session s'"
  proof (rule one_sessionI)
    fix i
    assume "i < length (nodes s')"
    then have l: "i < length (nodes s)" by (simp add: s')
    show "leftOsc (binauralNodes s') = Some i \<or> rightOsc (binauralNodes s') = Some i
        \<or> i \<in> set (chordOscillators s')"
      if "kind (nodes s' ! i) = OscillatorNode" "live (nodes s' ! i)"
      using stopped_store_owned(1)[OF one ok l] that old by (simp add: s')
    show "noiseSource (binauralNodes s') = Some i"
      if "kind (nodes s' ! i) = AudioBufferSourceNode" "loop (nodes s' ! i)" "live (nodes s' ! i)"
      using stopped_store_owned(2)[OF one ok l] that old by simp
    show "merger (binauralNodes s') = Some i"
      if "kind (nodes s' ! i) = ChannelMergerNode" "outputs (nodes s' ! i) \<noteq> []"
      using stopped_store_owned(3)[OF one ok l] that old by simp
    show "panNode (binauralNodes s') = Some i"
      if "kind (nodes s' ! i) = StereoPannerNode" "outputs (nodes s' ! i) \<noteq> []"
      using stopped_store_owned(3)[OF one ok l] that old by simp
    show "delayNode (binauralNodes s') = Some i"
      if "kind (nodes s' ! i) = DelayNode" "outputs (nodes s' ! i) \<noteq> []"
      using stopped_store_owned(3)[OF one ok l] that old by simp
  qed
  show "session_wired s'"
    by (rule session_wiredI) (simp add: s' null_nodes_def)
qed

lemma chord_voices_kind:
  assumes "m < 2 * length ns"
  shows "kind (chord_voices chordGain octave len m0 ns ! m)
       = (if even m then OscillatorNode else GainNode)"
proof (cases "even m")
  case True
  then obtain j where j: "m = 2 * j" by (auto elim: evenE)
  with assms have "j < length ns" by simp
  from nth_chord_voices_osc[OF this, of chordGain octave len m0] True show ?thesis
    by (simp add: j new_node_def)
next
  case False
  then obtain j where j: "m = 2 * j + 1" by (auto elim: oddE)
  with assms have "j < length ns" by simp
  from nth_chord_voices_gain[OF this, of chordGain octave len m0] False show ?thesis
    by (simp add: j new_node_def)
qed

lemma chord_session:
  assumes one: "one_session s" and wired: "session_wired s" and live: "sources_live s"
    and ok: "handle_ok s" and ch: "chords_ok s"
    and s': "s' = s\<lparr>nodes := silenced s @ news, chordOscillators := ids\<rparr>"
    and news: "\<And>m. m < length news \<Longrightarrow>
        kind (news ! m) = GainNode
        \<or> kind (news ! m) = OscillatorNode \<and> length (nodes s) + m \<in> set ids"
  shows "one_session s' \<and> session_wired s'"
proof
  have old: "nodes s' ! i = silenced s ! i" if "i < length (nodes s)" for i
    using that by (simp add: s' nth_append)
  have new: "nodes s' ! (length (nodes s) + m) = news ! m" for m
    by (simp add: s' nth_append)
  have split: "i < length (nodes s) \<or> (\<exists>m<length news. i = length (nodes s) + m)"
    if "i < length (nodes s')" for i
  proof (cases "i < length (nodes s)")
    case True
    then show ?thesis by simp
  next
    case False
    with that have "i - length (nodes s) < length news
        \<and> i = length (nodes s) + (i - length (nodes s))"
      by (simp add: s')
    then show ?thesis by blast
  qed
  show "one_session s'"
  proof (rule one_sessionI)
    fix i
    assume i: "i < length (nodes s')"
    show "leftOsc (binauralNodes s') = Some i \<or> rightOsc (binauralNodes s') = Some i
        \<or> i \<in> set (chordOscillators s')"
      if "kind (nodes s' ! i) = OscillatorNode" "live (nodes s' ! i)"
      using split[OF i]
    proof (elim disjE exE conjE)
      assume l: "i < length (nodes s)"
      from silenced_owned(1)[OF one ch l] that old[OF l]
      show ?thesis by (auto simp: s')
    next
      fix m assume m: "m < length news" "i = length (nodes s) + m"
      from news[OF m(1)] that(1) show ?thesis
        unfolding m(2) new by (auto simp: s')
    qed
    show "noiseSource (binauralNodes s') = Some i"
      if "kind (nodes s' ! i) = AudioBufferSourceNode" "loop (nodes s' ! i)" "live (nodes s' ! i)"
      using split[OF i]
    proof (elim disjE exE conjE)
      assume l: "i < length (nodes s)"
      from silenced_owned(2)[OF one ch l] that old[OF l]
      show ?thesis by (simp add: s')
    next
      fix m assume m: "m < length news" "i = length (nodes s) + m"
      from news[OF m(1)] that(1) show ?thesis
        unfolding m(2) new by auto
    qed
    show "merger (binauralNodes s') = Some i"
      if "kind (nodes s' ! i) = ChannelMergerNode" "outputs (nodes s' ! i) \<noteq> []"
      using split[OF i]
    proof (elim disjE exE conjE)
      assume l: "i < length (nodes s)"
      from silenced_owned(3)[OF one ch l] that old[OF l]
      show ?thesis by (simp add: s')
    next
      fix m assume m: "m < length news" "i = length (nodes s) + m"
      from news[OF m(1)] that(1) show ?thesis
        unfolding m(2) new by auto
    qed
    show "panNode (binauralNodes s') = Some i"
      if "kind (nodes s' ! i) = StereoPannerNode" "outputs (nodes s' ! i) \<noteq> []"
      using split[OF i]
    proof (elim disjE exE conjE)
      assume l: "i < length (nodes s)"
      from silenced_owned(4)[OF one ch l] that old[OF l]
      show ?thesis by (simp add: s')
    next
      fix m assume m: "m < length news" "i = length (nodes s) + m"
      from news[OF m(1)] that(1) show ?thesis
        unfolding m(2) new by auto
    qed
    show "delayNode (binauralNodes s') = Some i"
      if "kind (nodes s' ! i) = DelayNode" "outputs (nodes s' ! i) \<noteq> []"
      using split[OF i]
    proof (elim disjE exE conjE)
      assume l: "i < length (nodes s)"
      from silenced_owned(5)[OF one ch l] that old[OF l]
      show ?thesis by (simp add: s')
    next
      fix m assume m: "m < length news" "i = length (nodes s) + m"
      from news[OF m(1)] that(1) show ?thesis
        unfolding m(2) new by auto
    qed
  qed
  show "session_wired s'"
  proof (rule session_wiredI)
    fix n
    assume "merger (binauralNodes s') = Some n"
    then have mg: "merger (binauralNodes s) = Some n" by (simp add: s')
    with ok have len: "n + 13 \<le> length (nodes s)" by (simp add: handle_ok_def)
    from wired mg obtain a where w: "analyser s = Some a" "audioContext s \<noteq> None"
      "loop (nodes s ! (n + 12))"
      "\<And>k. k < 13 \<Longrightarrow> kind (nodes s ! (n + k)) = session_kinds ! k"
      "\<And>k. k < 13 \<Longrightarrow> outputs (nodes s ! (n + k)) = session_wiring n a ! k"
      by (rule session_wiredD) blast
    have same: "nodes s' ! (n + k) = nodes s ! (n + k)" if "k < 13" for k
    proof -
      have "n + k \<notin> set (chordOscillators s)"
        using sources_live_chord[OF live, of "n + k"] mg that by (auto simp: in_session_def)
      from silenced_other[OF this] old[of "n + k"] len that show ?thesis by simp
    qed
    have "loop (nodes s' ! (n + 12))" using same[of 12] w(3) by simp
    moreover have "kind (nodes s' ! (n + k)) = session_kinds ! k
        \<and> outputs (nodes s' ! (n + k)) = session_wiring n a ! k" if "k < 13" for k
      using same[OF that] w(4,5)[OF that] by simp
    moreover have "analyser s' = Some a" "audioContext s' \<noteq> None"
      using w(1,2) by (simp_all add: s')
    ultimately show "\<exists>a. analyser s' = Some a \<and> audioContext s' \<noteq> None
        \<and> loop (nodes s' ! (n + 12))
        \<and> (\<forall>k<13. kind (nodes s' ! (n + k)) = session_kinds ! k
                  \<and> outputs (nodes s' ! (n + k)) = session_wiring n a ! k)"
      by blast
  qed
qed

lemma frame_session:
  assumes one: "one_session s" and wired: "session_wired s" and ok: "handle_ok s"
    and h: "binauralNodes s' = binauralNodes s" and c: "chordOscillators s' = chordOscillators s"
    and a: "analyser s' = analyser s" and ctx: "audioContext s' = audioContext s"
    and len: "length (nodes s') = length (nodes s)"
    and old: "\<And>i. same_play (nodes s' ! i) (nodes s ! i)"
  shows "one_session s' \<and> session_wired s'"
proof
  show "one_session s'"
    using one h c old by (rule one_session_frame) (simp add: len)
  show "session_wired s'"
    using wired ok h a _ old by (rule session_wired_frame) (simp add: ctx)
qed

lemma api_call_session:
  assumes one: "one_session s" and wired: "session_wired s" and live: "sources_live s"
    and ok: "handle_ok s" and ch: "chords_ok s"
    and run: "api_call c s = Inr s'"
  shows "one_session s' \<and> session_wired s'"
proof (cases c)
  case (StartBinaural baseFreq beatFreq noiseMix panValue waveform)
  with run have r: "startBinaural baseFreq beatFreq noiseMix panValue waveform s = Inr s'"
    by simp
  show ?thesis
  proof (cases "audioContext s = None \<or> analyser s = None")
    case True
    with r have "s' = s" by (auto simp: startBinaural_def split: option.splits)
    with one wired show ?thesis by simp
  next
    case False
    then obtain ctx a where i: "audioContext s = Some ctx" "analyser s = Some a" by auto
    from r[unfolded startBinaural_eq[OF ok this]]
    have s': "s' = s\<lparr>nodes := stopped_store s @
               session_graph (length (nodes s)) a baseFreq beatFreq noiseMix panValue waveform
                 (white_noise ctx (random_values s) (random_pos s)),
             random_pos := random_pos s + 2 * nat \<lceil>sampleRate ctx * 2\<rceil>,
             binauralNodes := session_handle (length (nodes s))\<rparr>"
      by simp
    from one ok s' _ i(2) show ?thesis by (rule start_session) (simp add: i(1))
  qed
next
  case StopBinaural
  with run have "stopBinaural s = Inr s'" by simp
  then have s': "s' = s\<lparr>nodes := stopped_store s, binauralNodes := null_nodes\<rparr>"
    by (simp add: stopBinaural_eq[OF ok])
  from one ok s' show ?thesis by (rule stop_session)
next
  case (UpdateBinauralFrequencies baseFreq beatFreq)
  with run have r: "updateBinauralFrequencies baseFreq beatFreq s = Inr s'" by simp
  have "same_play (nodes s' ! i) (nodes s ! i)" for i
    using r
    by (auto simp: updateBinauralFrequencies_def Let_def same_play_update_node2
          split: option.splits)
  moreover have "length (nodes s') = length (nodes s)"
    using r by (auto simp: updateBinauralFrequencies_def Let_def split: option.splits)
  moreover note updateBinauralFrequencies_frame[OF r] api_call_shell[OF ok run]
  ultimately show ?thesis
    by (intro frame_session[OF one wired ok]) simp_all
next
  case (UpdateNoiseMix mix)
  with run have r: "updateNoiseMix mix s = Inr s'" by simp
  have "same_play (nodes s' ! i) (nodes s ! i)" for i
    using r
    by (auto simp: updateNoiseMix_def Let_def same_play_update_node2 split: option.splits)
  moreover have "length (nodes s') = length (nodes s)"
    using r by (auto simp: updateNoiseMix_def Let_def split: option.splits)
  moreover note updateNoiseMix_frame[OF r] api_call_shell[OF ok run]
  ultimately show ?thesis
    by (intro frame_session[OF one wired ok]) simp_all
next
  case (UpdatePanning panValue)
  with run have r: "updatePanning panValue s = Inr s'" by simp
  have "same_play (nodes s' ! i) (nodes s ! i)" for i
    using r
    by (auto simp: updatePanning_def Let_def same_play_update_node split: option.splits)
  moreover have "length (nodes s') = length (nodes s)"
    using r by (auto simp: updatePanning_def Let_def split: option.splits)
  moreover note updatePanning_frame[OF r] api_call_shell[OF ok run]
  ultimately show ?thesis
    by (intro frame_session[OF one wired ok]) simp_all
next
  case (UpdateWaveform waveform)
  with run have r: "updateWaveform waveform s = Inr s'" by simp
  have "same_play (nodes s' ! i) (nodes s ! i)" for i
    using r
    by (auto simp: updateWaveform_def Let_def same_play_update_node2 split: option.splits)
  moreover have "length (nodes s') = length (nodes s)"
    using r by (auto simp: updateWaveform_def Let_def split: option.splits)
  moreover note updateWaveform_frame[OF r] api_call_shell[OF ok run]
  ultimately show ?thesis
    by (intro frame_session[OF one wired ok]) simp_all
next
  case (PlayDrumSound drumType)
  with run have r: "playDrumSound drumType s = Inr s'" by simp
  have old: "same_play (nodes s' ! i) (nodes s ! i)" if "i < length (nodes s)" for i
    using playDrumSound_cases[OF r] that by (auto simp: nth_append)
  have new: "kind (nodes s' ! i) \<noteq> OscillatorNode \<and> kind (nodes s' ! i) \<noteq> ChannelMergerNode
        \<and> kind (nodes s' ! i) \<noteq> StereoPannerNode \<and> kind (nodes s' ! i) \<noteq> DelayNode
        \<and> \<not> loop (nodes s' ! i)"
    if "length (nodes s) \<le> i" "i < length (nodes s')" for i
  proof -
    from playDrumSound_cases[OF r] that obtain b a where
      s': "s' = s\<lparr>nodes := nodes s @
              [(new_node AudioBufferSourceNode)
                 \<lparr>buffer := Some b, started := True, outputs := [(length (nodes s) + 1, 0, 0)]\<rparr>,
               (new_node GainNode)
                 \<lparr>gain := \<lparr>param_value = 0.5, events = []\<rparr>, outputs := [(a, 0, 0)]\<rparr>]\<rparr>"
      by auto
    from that have "i = length (nodes s) \<or> i = length (nodes s) + 1"
      by (auto simp: s')
    then show ?thesis
      by (auto simp: s' nth_append new_node_def)
  qed
  from playDrumSound_fields[OF r] api_call_shell[OF ok run] show ?thesis
    by (intro conjI one_session_frame[OF one _ _ old new]
          session_wired_frame[OF wired ok _ _ _ old]) simp_all
next
  case (PlayChord ns octave volume)
  with run have r: "playChord ns octave volume s = Inr s'" by simp
  show ?thesis
  proof (cases "audioContext s = None \<or> analyser s = None")
    case True
    with r have "s' = s" by (auto simp: playChord_def split: option.splits)
    with one wired show ?thesis by simp
  next
    case False
    then obtain ctx a where "audioContext s = Some ctx" "analyser s = Some a" by auto
    from r[unfolded playChord_eq[OF this]]
    have s': "s' = s\<lparr>nodes := silenced s @
               (new_node GainNode)
                  \<lparr>gain := \<lparr>param_value = volume * 0.2, events = []\<rparr>, outputs := [(a, 0, 0)]\<rparr>
               # chord_voices (length (nodes s)) octave (length ns) (length (nodes s) + 1) ns,
            chordOscillators := voice_ids (length (nodes s) + 1) (length ns)\<rparr>"
      by simp
    let ?news = "(new_node GainNode)
                  \<lparr>gain := \<lparr>param_value = volume * 0.2, events = []\<rparr>, outputs := [(a, 0, 0)]\<rparr>
               # chord_voices (length (nodes s)) octave (length ns) (length (nodes s) + 1) ns"
    have news: "kind (?news ! m) = GainNode
        \<or> kind (?news ! m) = OscillatorNode
          \<and> length (nodes s) + m \<in> set (voice_ids (length (nodes s) + 1) (length ns))"
      if "m < length ?news" for m
    proof (cases m)
      case 0
      then show ?thesis by (simp add: new_node_def)
    next
      case (Suc m')
      with that have m': "m' < 2 * length ns" by simp
      show ?thesis
      proof (cases "even m'")
        case True
        then obtain j where j: "m' = 2 * j" by (auto elim: evenE)
        with m' have "j < length ns" by simp
        then have "length (nodes s) + m \<in> set (voice_ids (length (nodes s) + 1) (length ns))"
          by (auto simp: voice_ids_eq Suc j)
        with True show ?thesis by (simp add: Suc chord_voices_kind[OF m'])
      next
        case False
        then show ?thesis by (simp add: Suc chord_voices_kind[OF m'])
      qed
    qed
    from one wired live ok ch s' news show ?thesis by (rule chord_session)
  qed
next
  case StopChord
  with run have s': "s' = s\<lparr>nodes := silenced s @ [], chordOscillators := []\<rparr>"
    by (simp add: stopChord_Inr)
  from one wired live ok ch s' show ?thesis by (rule chord_session) simp
qed

lemma reachable_session: "reachable s \<Longrightarrow> one_session s \<and> session_wired s"
proof (induction rule: reachable.induct)
  case (first_render rv)
  show ?case
    by (simp add: one_session_def session_wired_def initial_engine_def null_nodes_def)
next
  case (effect s rate)
  from effect.hyps(1) have ok: "handle_ok s" by (simp add: reachable_invariant)
  from effect.IH have one: "one_session s" and wired: "session_wired s" by simp_all
  let ?s' = "useEffect_mount rate s"
  have old: "same_play (nodes ?s' ! i) (nodes s ! i)" if "i < length (nodes s)" for i
    using that by (simp add: useEffect_mount_eq Let_def nth_append)
  have new: "kind (nodes ?s' ! i) \<noteq> OscillatorNode \<and> kind (nodes ?s' ! i) \<noteq> ChannelMergerNode
        \<and> kind (nodes ?s' ! i) \<noteq> StereoPannerNode \<and> kind (nodes ?s' ! i) \<noteq> DelayNode
        \<and> \<not> loop (nodes ?s' ! i)"
    if "length (nodes s) \<le> i" "i < length (nodes ?s')" for i
  proof -
    from that have "i = length (nodes s) \<or> i = length (nodes s) + 1"
      by (auto simp: useEffect_mount_eq Let_def)
    then show ?thesis
      by (auto simp: useEffect_mount_eq Let_def nth_append new_node_def)
  qed
  have none: "merger (binauralNodes s) = None"
  proof (cases "merger (binauralNodes s)")
    case None
    then show ?thesis .
  next
    case (Some n)
    from wired Some have "audioContext s \<noteq> None" by (rule session_wiredD)
    with effect.hyps(2) show ?thesis by simp
  qed
  have "one_session ?s'"
    using mount_frame[of s rate] by (intro one_session_frame[OF one _ _ old new]) simp_all
  moreover have "session_wired ?s'"
    using none mount_frame[of s rate] by (intro session_wiredI) simp
  ultimately show ?case by simp
next
  case (called s c s')
  from called.hyps(1) have "sources_live s" "handle_ok s" "chords_ok s"
    by (simp_all add: reachable_invariant reachable_sources_live)
  with called.IH called.hyps(2) show ?case
    by (intro api_call_session[of s c s']) simp_all
next
  case (clock s ctx t)
  then show ?case
    by (simp add: one_session_def session_wired_def split: option.splits)
qed

lemma filter_upt_two:
  assumes "a < b" and "b < m" and "\<And>i. i < m \<Longrightarrow> P i = (i = a \<or> i = b)"
  shows "filter P [0..<m] = [a, b]"
proof (rule sorted_distinct_set_unique)
  show "sorted (filter P [0..<m])" by (rule sorted_wrt_filter) simp
  show "distinct (filter P [0..<m])" by simp
  show "sorted [a, b]" using assms(1) by simp
  show "distinct [a, b]" using assms(1) by simp
  show "set (filter P [0..<m]) = set [a, b]" using assms by auto
qed

lemma filter_upt_one:
  assumes "a < m" and "\<And>i. i < m \<Longrightarrow> P i = (i = a)"
  shows "filter P [0..<m] = [a]"
proof (rule sorted_distinct_set_unique)
  show "sorted (filter P [0..<m])" by (rule sorted_wrt_filter) simp
  show "distinct (filter P [0..<m])" by simp
  show "sorted [a]" by simp
  show "distinct [a]" by simp
  show "set (filter P [0..<m]) = set [a]" using assms by auto
qed

lemma session_lists:
  assumes one: "one_session s" and wired: "session_wired s" and live: "sources_live s"
    and ok: "handle_ok s" and m: "merger (binauralNodes s) = Some n"
  shows "binaural_oscillators s = [n + 1, n + 2]"
    and "noise_sources s = [n + 12]"
    and "panners s = [n + 7]"
    and "\<exists>a. analyser s = Some a \<and> outputs (nodes s ! (n + 7)) = [(a, 0, 0)]"
proof -
  from ok m have h: "binauralNodes s = session_handle n" and len: "n + 13 \<le> length (nodes s)"
    by (simp_all add: handle_ok_def)
  from wired m obtain a where w: "analyser s = Some a"
    "loop (nodes s ! (n + 12))"
    "\<And>k. k < 13 \<Longrightarrow> kind (nodes s ! (n + k)) = session_kinds ! k"
    "\<And>k. k < 13 \<Longrightarrow> outputs (nodes s ! (n + k)) = session_wiring n a ! k"
    by (rule session_wiredD) blast
  note lv = sources_live_handle[OF live m]
  have out: "n + k \<notin> set (chordOscillators s)" if "k < 13" for k
    using sources_live_chord[OF live, of "n + k"] m that by (auto simp: in_session_def)
  have k1: "kind (nodes s ! (n + 1)) = OscillatorNode" "outputs (nodes s ! (n + 1)) \<noteq> []"
    using w(3)[of 1] w(4)[of 1] by (simp_all add: session_kinds_def session_wiring_def)
  have k2: "kind (nodes s ! (n + 2)) = OscillatorNode" "outputs (nodes s ! (n + 2)) \<noteq> []"
    using w(3)[of 2] w(4)[of 2] by (simp_all add: session_kinds_def session_wiring_def)
  have k12: "kind (nodes s ! (n + 12)) = AudioBufferSourceNode" "outputs (nodes s ! (n + 12)) \<noteq> []"
    using w(3)[of 12] w(4)[of 12] by (simp_all add: session_kinds_def session_wiring_def)
  have k7: "kind (nodes s ! (n + 7)) = StereoPannerNode" "outputs (nodes s ! (n + 7)) = [(a, 0, 0)]"
    using w(3)[of 7] w(4)[of 7] by (simp_all add: session_kinds_def session_wiring_def)
  show "binaural_oscillators s = [n + 1, n + 2]"
    unfolding binaural_oscillators_def
  proof (rule filter_upt_two)
    show "n + 1 < n + 2" by simp
    show "n + 2 < length (nodes s)" using len by simp
    fix i assume i: "i < length (nodes s)"
    show "(kind (nodes s ! i) = OscillatorNode \<and> audible (nodes s ! i)
           \<and> i \<notin> set (chordOscillators s)) = (i = n + 1 \<or> i = n + 2)"
    proof
      assume p: "kind (nodes s ! i) = OscillatorNode \<and> audible (nodes s ! i)
           \<and> i \<notin> set (chordOscillators s)"
      then have "live (nodes s ! i)" by (simp add: audible_def live_def)
      with one_sessionD(1)[OF one i] p show "i = n + 1 \<or> i = n + 2"
        by (auto simp: h session_handle_def)
    next
      assume "i = n + 1 \<or> i = n + 2"
      then show "kind (nodes s ! i) = OscillatorNode \<and> audible (nodes s ! i)
           \<and> i \<notin> set (chordOscillators s)"
        using k1 k2 lv out[of 1] out[of 2] by (auto simp: audible_def live_def)
    qed
  qed
  show "noise_sources s = [n + 12]"
    unfolding noise_sources_def
  proof (rule filter_upt_one)
    show "n + 12 < length (nodes s)" using len by simp
    fix i assume i: "i < length (nodes s)"
    show "(kind (nodes s ! i) = AudioBufferSourceNode \<and> loop (nodes s ! i)
           \<and> audible (nodes s ! i)) = (i = n + 12)"
    proof
      assume p: "kind (nodes s ! i) = AudioBufferSourceNode \<and> loop (nodes s ! i)
           \<and> audible (nodes s ! i)"
      then have "live (nodes s ! i)" by (simp add: audible_def live_def)
      with one_sessionD(2)[OF one i] p show "i = n + 12"
        by (auto simp: h session_handle_def)
    next
      assume "i = n + 12"
      then show "kind (nodes s ! i) = AudioBufferSourceNode \<and> loop (nodes s ! i)
           \<and> audible (nodes s ! i)"
        using k12 lv w(2) by (auto simp: audible_def live_def)
    qed
  qed
  show "panners s = [n + 7]"
    unfolding panners_def
  proof (rule filter_upt_one)
    show "n + 7 < length (nodes s)" using len by simp
    fix i assume i: "i < length (nodes s)"
    show "(kind (nodes s ! i) = StereoPannerNode \<and> outputs (nodes s ! i) \<noteq> []) = (i = n + 7)"
    proof
      assume p: "kind (nodes s ! i) = StereoPannerNode \<and> outputs (nodes s ! i) \<noteq> []"
      with one_sessionD(4)[OF one i] show "i = n + 7"
        by (auto simp: h session_handle_def)
    next
      assume "i = n + 7"
      then show "kind (nodes s ! i) = StereoPannerNode \<and> outputs (nodes s ! i) \<noteq> []"
        using k7 by simp
    qed
  qed
  show "\<exists>a. analyser s = Some a \<and> outputs (nodes s ! (n + 7)) = [(a, 0, 0)]"
    using w(1) k7(2) by simp
qed

lemma no_session_lists:
  assumes one: "one_session s" and ok: "handle_ok s" and m: "merger (binauralNodes s) = None"
  shows "binaural_oscillators s = []" and "noise_sources s = []" and "panners s = []"
proof -
  from ok m have h: "binauralNodes s = null_nodes" by (simp add: handle_ok_def)
  show "binaural_oscillators s = []"
    unfolding binaural_oscillators_def filter_empty_conv
  proof
    fix i assume "i \<in> set [0..<length (nodes s)]"
    then have i: "i < length (nodes s)" by simp
    show "\<not> (kind (nodes s ! i) = OscillatorNode \<and> audible (nodes s ! i)
           \<and> i \<notin> set (chordOscillators s))"
      using one_sessionD(1)[OF one i] by (auto simp: h null_nodes_def audible_def live_def)
  qed
  show "noise_sources s = []"
    unfolding noise_sources_def filter_empty_conv
  proof
    fix i assume "i \<in> set [0..<length (nodes s)]"
    then have i: "i < length (nodes s)" by simp
    show "\<not> (kind (nodes s ! i) = AudioBufferSourceNode \<and> loop (nodes s ! i)
           \<and> audible (nodes s ! i))"
      using one_sessionD(2)[OF one i] by (auto simp: h null_nodes_def audible_def live_def)
  qed
  show "panners s = []"
    unfolding panners_def filter_empty_conv
  proof
    fix i assume "i \<in> set [0..<length (nodes s)]"
    then have i: "i < length (nodes s)" by simp
    show "\<not> (kind (nodes s ! i) = StereoPannerNode \<and> outputs (nodes s ! i) \<noteq> [])"
      using one_sessionD(4)[OF one i] by (auto simp: h null_nodes_def)
  qed
qed

lemma start_step:
  assumes r: "reachable s" and ctx: "audioContext s = Some ctx" and a: "analyser s = Some a"
  shows "\<exists>s'. startBinaural baseFreq beatFreq noiseMix panValue waveform s = Inr s'
          \<and> reachable s' \<and> audioContext s' = Some ctx \<and> analyser s' = Some a
          \<and> chordOscillators s' = chordOscillators s
          \<and> binauralNodes s' = session_handle (length (nodes s))
          \<and> length (nodes s') = length (nodes s) + 13
          \<and> (\<forall>i<length (nodes s).
                (in_session s i \<or> retired (nodes s ! i) \<longrightarrow> retired (nodes s' ! i))
              \<and> (\<not> in_session s i \<longrightarrow> nodes s' ! i = nodes s ! i)
              \<and> kind (nodes s' ! i) = kind (nodes s ! i))"
proof -
  have ok: "handle_ok s" using reachable_invariant[OF r] by simp
  have wired: "session_wired s" using reachable_session[OF r] by simp
  let ?s' = "s\<lparr>nodes := stopped_store s @
               session_graph (length (nodes s)) a baseFreq beatFreq noiseMix panValue waveform
                 (white_noise ctx (random_values s) (random_pos s)),
             random_pos := random_pos s + 2 * nat \<lceil>sampleRate ctx * 2\<rceil>,
             binauralNodes := session_handle (length (nodes s))\<rparr>"
  have eq: "startBinaural baseFreq beatFreq noiseMix panValue waveform s = Inr ?s'"
    by (rule startBinaural_eq[OF ok ctx a])
  then have "api_call (StartBinaural baseFreq beatFreq noiseMix panValue waveform) s = Inr ?s'"
    by simp
  from reachable.called[OF r this] have r': "reachable ?s'" .
  have old: "(in_session s i \<or> retired (nodes s ! i) \<longrightarrow> retired (nodes ?s' ! i))
              \<and> (\<not> in_session s i \<longrightarrow> nodes ?s' ! i = nodes s ! i)
              \<and> kind (nodes ?s' ! i) = kind (nodes s ! i)"
    if i: "i < length (nodes s)" for i
  proof (cases "in_session s i")
    case False
    with stopped_store_nth(7)[OF ok i] i show ?thesis by (simp add: nth_append)
  next
    case True
    then obtain n where n: "merger (binauralNodes s) = Some n" "n \<le> i" "i < n + 13"
      by (auto simp: in_session_def split: option.splits)
    from ok n(1) have h: "binauralNodes s = session_handle n" by (simp add: handle_ok_def)
    from wired n(1) have kinds: "\<And>k. k < 13 \<Longrightarrow> kind (nodes s ! (n + k)) = session_kinds ! k"
      by (rule session_wiredD)
    from n obtain k where k: "k < 13" "i = n + k"
      by (metis add_diff_inverse_nat add_less_cancel_left not_less)
    have "stopped (stopped_store s ! i)"
      if "kind (nodes s ! i) = OscillatorNode \<or> kind (nodes s ! i) = AudioBufferSourceNode"
    proof -
      from that have "k = 1 \<or> k = 2 \<or> k = 12"
        unfolding k(2) kinds[OF k(1)] session_kinds_nth(1,2)[OF k(1)] by blast
      then have "leftOsc (binauralNodes s) = Some i \<or> rightOsc (binauralNodes s) = Some i
         \<or> noiseSource (binauralNodes s) = Some i"
        by (auto simp: h session_handle_def k(2))
      then show ?thesis by (rule stopped_store_nth(6)[OF ok i])
    qed
    with stopped_store_nth(1,5)[OF ok i] True i show ?thesis
      by (simp add: nth_append retired_def)
  qed
  show ?thesis
    using eq r' old by (intro exI[of _ ?s']) (simp add: ctx a)
qed

lemma starts_run:
  assumes "calls \<noteq> []" and "reachable s" and "audioContext s = Some ctx" and "analyser s = Some a"
  shows "\<exists>s' n. starts calls s = Inr s' \<and> reachable s'
          \<and> audioContext s' = Some ctx \<and> analyser s' = Some a
          \<and> chordOscillators s' = chordOscillators s
          \<and> binauralNodes s' = session_handle n \<and> n + 13 = length (nodes s')
          \<and> length (nodes s') = length (nodes s) + 13 * length calls
          \<and> (\<forall>i<n. length (nodes s) \<le> i \<or> in_session s i \<or> retired (nodes s ! i)
                \<longrightarrow> retired (nodes s' ! i))
          \<and> (\<forall>i<length (nodes s). \<not> in_session s i \<longrightarrow> nodes s' ! i = nodes s ! i)
          \<and> (\<forall>i<length (nodes s). kind (nodes s' ! i) = kind (nodes s ! i))"
  using assms
proof (induction calls arbitrary: s)
  case Nil
  then show ?case by simp
next
  case (Cons c calls)
  obtain baseFreq beatFreq noiseMix panValue waveform
    where c: "c = (baseFreq, beatFreq, noiseMix, panValue, waveform)"
    by (cases c) auto
  from start_step[OF Cons.prems(2,3,4), of baseFreq beatFreq noiseMix panValue waveform]
  obtain s1 where s1: "startBinaural baseFreq beatFreq noiseMix panValue waveform s = Inr s1"
    "reachable s1" "audioContext s1 = Some ctx" "analyser s1 = Some a"
    "chordOscillators s1 = chordOscillators s"
    "binauralNodes s1 = session_handle (length (nodes s))"
    "length (nodes s1) = length (nodes s) + 13"
    "\<And>i. i < length (nodes s) \<Longrightarrow> in_session s i \<or> retired (nodes s ! i) \<Longrightarrow>
       retired (nodes s1 ! i)"
    "\<And>i. i < length (nodes s) \<Longrightarrow> \<not> in_session s i \<Longrightarrow> nodes s1 ! i = nodes s ! i"
    "\<And>i. i < length (nodes s) \<Longrightarrow> kind (nodes s1 ! i) = kind (nodes s ! i)"
    by blast
  have run: "starts (c # calls) s = starts calls s1"
    by (simp add: c s1(1) and_then_def)
  show ?case
  proof (cases "calls = []")
    case True
    have "\<forall>i<length (nodes s). length (nodes s) \<le> i \<or> in_session s i \<or> retired (nodes s ! i)
                \<longrightarrow> retired (nodes s1 ! i)"
      using s1(8) by auto
    moreover have "starts (c # calls) s = Inr s1" "length (c # calls) = 1"
      using run True by simp_all
    ultimately show ?thesis
      using s1(2-7) s1(9,10)
      by (intro exI[of _ s1] exI[of _ "length (nodes s)"]) simp
  next
    case False
    from Cons.IH[OF False s1(2,3,4)]
    obtain s' n where s': "starts calls s1 = Inr s'" "reachable s'"
      "audioContext s' = Some ctx" "analyser s' = Some a"
      "chordOscillators s' = chordOscillators s1"
      "binauralNodes s' = session_handle n" "n + 13 = length (nodes s')"
      "length (nodes s') = length (nodes s1) + 13 * length calls"
      "\<And>i. i < n \<Longrightarrow> length (nodes s1) \<le> i \<or> in_session s1 i \<or> retired (nodes s1 ! i) \<Longrightarrow>
         retired (nodes s' ! i)"
      "\<And>i. i < length (nodes s1) \<Longrightarrow> \<not> in_session s1 i \<Longrightarrow> nodes s' ! i = nodes s1 ! i"
      "\<And>i. i < length (nodes s1) \<Longrightarrow> kind (nodes s' ! i) = kind (nodes s1 ! i)"
      by blast
    have in1: "in_session s1 i = (length (nodes s) \<le> i \<and> i < length (nodes s) + 13)" for i
      by (simp add: in_session_def s1(6) session_handle_def)
    have dead: "retired (nodes s' ! i)"
      if "i < n" "length (nodes s) \<le> i \<or> in_session s i \<or> retired (nodes s ! i)" for i
    proof (cases "i < length (nodes s)")
      case True
      with that(2) have "retired (nodes s1 ! i)" by (intro s1(8)) simp_all
      with that(1) show ?thesis by (intro s'(9)) simp_all
    next
      case False
      then have "length (nodes s1) \<le> i \<or> in_session s1 i"
        unfolding in1 s1(7) by auto
      with that(1) show ?thesis by (intro s'(9)) auto
    qed
    have same: "nodes s' ! i = nodes s ! i" if "i < length (nodes s)" "\<not> in_session s i" for i
    proof -
      from that(1) have "nodes s' ! i = nodes s1 ! i"
        by (intro s'(10)) (simp_all add: in1 s1(7))
      with s1(9)[OF that] show ?thesis by simp
    qed
    have kinds: "kind (nodes s' ! i) = kind (nodes s ! i)" if "i < length (nodes s)" for i
      using s'(11)[of i] s1(10)[OF that] that by (simp add: s1(7))
    show ?thesis
      unfolding run
      using s'(1-7) s'(8) s1(5,7) dead same kinds
      by (intro exI[of _ s'] exI[of _ n]) simp
  qed
qed

lemma busy_fields:
  "reachable busy_engine"
  "audioContext busy_engine = Some \<lparr>sampleRate = 10, currentTime = 0, destination = 0\<rparr>"
  "analyser busy_engine = Some 1"
  "binauralNodes busy_engine = session_handle 11"
  "chordOscillators busy_engine = [3, 5, 7]"
  "length (nodes busy_engine) = 24"
  "kind (nodes busy_engine ! 9) = AudioBufferSourceNode \<and> \<not> loop (nodes busy_engine ! 9)
   \<and> audible (nodes busy_engine ! 9)"
  "kind (nodes busy_engine ! 3) = OscillatorNode \<and> audible (nodes busy_engine ! 3)"
proof -
  let ?ctx = "\<lparr>sampleRate = 10, currentTime = 0, destination = 0\<rparr>"
  from reachable_bank[OF chord_fields(1)] have "drumBuffers chord_engine ''kick'' = Some (kick_buffer ?ctx)"
    by (auto simp: bank_loaded_def chord_fields(2))
  note hit = playDrumSound_eq[OF chord_fields(2,3) this]
  define d where "d = chord_engine\<lparr>nodes := nodes chord_engine @
              [(new_node AudioBufferSourceNode)
                 \<lparr>buffer := Some (kick_buffer ?ctx), started := True,
                  outputs := [(length (nodes chord_engine) + 1, 0, 0)]\<rparr>,
               (new_node GainNode)
                 \<lparr>gain := \<lparr>param_value = 0.5, events = []\<rparr>, outputs := [(1, 0, 0)]\<rparr>]\<rparr>"
  from hit have hit': "playDrumSound ''kick'' chord_engine = Inr d" by (simp add: d_def)
  then have "api_call (PlayDrumSound ''kick'') chord_engine = Inr d" by simp
  from reachable.called[OF chord_fields(1) this] have rd: "reachable d" .
  have d: "audioContext d = Some ?ctx" "analyser d = Some 1" "chordOscillators d = [3, 5, 7]"
    "length (nodes d) = 11" "binauralNodes d = binauralNodes chord_engine"
    by (simp_all add: d_def chord_fields)
  have "binauralNodes chord_engine = binauralNodes mounted_engine"
    using playChord_eq[OF mounted_initialised(1,2), of "[0, 4, 7]" 4 "1 / 2"]
    by (simp add: chord_engine_def)
  with d(5) have nos: "\<not> in_session d i" for i
    by (simp add: in_session_def mounted_initialised(3) null_nodes_def)
  have d9: "kind (nodes d ! 9) = AudioBufferSourceNode \<and> \<not> loop (nodes d ! 9)
      \<and> audible (nodes d ! 9)"
    by (simp add: d_def nth_append chord_fields(5) new_node_def audible_def)
  have c3: "nodes chord_engine ! 3 = chord_voices 2 4 3 3 [0, 4, 7] ! (2 * 0)"
    using playChord_eq[OF mounted_initialised(1,2), of "[0, 4, 7]" 4 "1 / 2"]
    by (simp add: chord_engine_def nth_append mounted_initialised(5))
  have d3: "kind (nodes d ! 3) = OscillatorNode \<and> audible (nodes d ! 3)"
    unfolding d_def using c3 nth_chord_voices_osc[of 0 "[0, 4, 7]" 2 4 3 3]
    by (simp add: nth_append chord_fields(5) new_node_def audible_def)
  from start_step[OF rd d(1,2), of 200 4 0 0 Sine]
  obtain s' where s': "startBinaural 200 4 0 0 Sine d = Inr s'" "reachable s'"
    "audioContext s' = Some ?ctx" "analyser s' = Some 1"
    "chordOscillators s' = chordOscillators d"
    "binauralNodes s' = session_handle (length (nodes d))"
    "length (nodes s') = length (nodes d) + 13"
    "\<And>i. i < length (nodes d) \<Longrightarrow> \<not> in_session d i \<Longrightarrow> nodes s' ! i = nodes d ! i"
    by blast
  have "busy_engine = s'"
    by (simp add: busy_engine_def hit' and_then_def s'(1))
  with s' d d9 d3 s'(8)[of 9] s'(8)[of 3] nos show "reachable busy_engine"
    "audioContext busy_engine = Some ?ctx"
    "analyser busy_engine = Some 1"
    "binauralNodes busy_engine = session_handle 11"
    "chordOscillators busy_engine = [3, 5, 7]"
    "length (nodes busy_engine) = 24"
    "kind (nodes busy_engine ! 9) = AudioBufferSourceNode \<and> \<not> loop (nodes busy_engine ! 9)
     \<and> audible (nodes busy_engine ! 9)"
    "kind (nodes busy_engine ! 3) = OscillatorNode \<and> audible (nodes busy_engine ! 3)"
    by simp_all
qed

section \<open>Theorems\<close>

text \<open>
  C1. In a reachable state with the engine initialised, \<open>startBinaural\<close> returns, and in
  the state it returns the handle's left oscillator has the frequency \<open>baseFreq\<close> and its
  right oscillator \<open>baseFreq + beatFreq\<close>, with nothing scheduled. With a session active,
  \<open>updateBinauralFrequencies\<close> schedules on the two oscillators a step to \<open>baseFreq\<close> and to
  \<open>baseFreq + beatFreq\<close> at the current time of the audio clock, which are their values from
  that time.
\<close>

theorem binaural_frequencies:
  assumes "reachable s" and "audioContext s = Some ctx" and "analyser s = Some a"
  shows "(\<exists>s' l r.
            startBinaural baseFreq beatFreq noiseMix panValue waveform s = Inr s'
          \<and> leftOsc (binauralNodes s') = Some l \<and> rightOsc (binauralNodes s') = Some r
          \<and> l < length (nodes s') \<and> r < length (nodes s') \<and> l \<noteq> r
          \<and> kind (nodes s' ! l) = OscillatorNode \<and> kind (nodes s' ! r) = OscillatorNode
          \<and> frequency (nodes s' ! l) = \<lparr>param_value = baseFreq, events = []\<rparr>
          \<and> frequency (nodes s' ! r) = \<lparr>param_value = baseFreq + beatFreq, events = []\<rparr>
          \<and> (\<forall>t. value_at (frequency (nodes s' ! l)) t = baseFreq
                \<and> value_at (frequency (nodes s' ! r)) t = baseFreq + beatFreq))
       \<and> (\<forall>l r. leftOsc (binauralNodes s) = Some l \<and> rightOsc (binauralNodes s) = Some r \<longrightarrow>
            (\<exists>s'. updateBinauralFrequencies baseFreq beatFreq s = Inr s'
              \<and> binauralNodes s' = binauralNodes s
              \<and> events (frequency (nodes s' ! l)) =
                  events (frequency (nodes s ! l)) @ [SetValueAtTime baseFreq (currentTime ctx)]
              \<and> events (frequency (nodes s' ! r)) =
                  events (frequency (nodes s ! r))
                    @ [SetValueAtTime (baseFreq + beatFreq) (currentTime ctx)]
              \<and> value_at (frequency (nodes s' ! l)) (currentTime ctx) = baseFreq
              \<and> value_at (frequency (nodes s' ! r)) (currentTime ctx) = baseFreq + beatFreq))"
proof (intro conjI allI impI)
  have ok: "handle_ok s" using reachable_invariant[OF assms(1)] by simp
  let ?s' = "s\<lparr>nodes := stopped_store s @
               session_graph (length (nodes s)) a baseFreq beatFreq noiseMix panValue waveform
                 (white_noise ctx (random_values s) (random_pos s)),
             random_pos := random_pos s + 2 * nat \<lceil>sampleRate ctx * 2\<rceil>,
             binauralNodes := session_handle (length (nodes s))\<rparr>"
  have "startBinaural baseFreq beatFreq noiseMix panValue waveform s = Inr ?s'"
    by (rule startBinaural_eq[OF ok assms(2,3)])
  then show "\<exists>s' l r.
            startBinaural baseFreq beatFreq noiseMix panValue waveform s = Inr s'
          \<and> leftOsc (binauralNodes s') = Some l \<and> rightOsc (binauralNodes s') = Some r
          \<and> l < length (nodes s') \<and> r < length (nodes s') \<and> l \<noteq> r
          \<and> kind (nodes s' ! l) = OscillatorNode \<and> kind (nodes s' ! r) = OscillatorNode
          \<and> frequency (nodes s' ! l) = \<lparr>param_value = baseFreq, events = []\<rparr>
          \<and> frequency (nodes s' ! r) = \<lparr>param_value = baseFreq + beatFreq, events = []\<rparr>
          \<and> (\<forall>t. value_at (frequency (nodes s' ! l)) t = baseFreq
                \<and> value_at (frequency (nodes s' ! r)) t = baseFreq + beatFreq)"
    by (intro exI[of _ ?s'] exI[of _ "length (nodes s) + 1"] exI[of _ "length (nodes s) + 2"])
       (simp add: session_handle_def session_graph_def nth_append new_node_def)
next
  fix l r
  assume lr: "leftOsc (binauralNodes s) = Some l \<and> rightOsc (binauralNodes s) = Some r"
  have ok: "handle_ok s" using reachable_invariant[OF assms(1)] by simp
  from lr have "binauralNodes s \<noteq> null_nodes" by (auto simp: null_nodes_def)
  with ok obtain n where n: "binauralNodes s = session_handle n" "n + 13 \<le> length (nodes s)"
    by (rule handle_ok_session)
  with lr have l: "l = n + 1" and r: "r = n + 2" by (simp_all add: session_handle_def)
  show "\<exists>s'. updateBinauralFrequencies baseFreq beatFreq s = Inr s'
              \<and> binauralNodes s' = binauralNodes s
              \<and> events (frequency (nodes s' ! l)) =
                  events (frequency (nodes s ! l)) @ [SetValueAtTime baseFreq (currentTime ctx)]
              \<and> events (frequency (nodes s' ! r)) =
                  events (frequency (nodes s ! r))
                    @ [SetValueAtTime (baseFreq + beatFreq) (currentTime ctx)]
              \<and> value_at (frequency (nodes s' ! l)) (currentTime ctx) = baseFreq
              \<and> value_at (frequency (nodes s' ! r)) (currentTime ctx) = baseFreq + beatFreq"
    using n assms(2)
    by (simp add: updateBinauralFrequencies_def session_handle_def l r Let_def update_node_def)
qed

theorem binaural_frequencies_witness:
  "reachable playing_engine
   \<and> audioContext playing_engine = Some \<lparr>sampleRate = 10, currentTime = 0, destination = 0\<rparr>
   \<and> analyser playing_engine = Some 1
   \<and> leftOsc (binauralNodes playing_engine) = Some 3
   \<and> rightOsc (binauralNodes playing_engine) = Some 4
   \<and> (\<exists>s' l r. startBinaural 300 8 0 0 Sine playing_engine = Inr s'
          \<and> leftOsc (binauralNodes s') = Some l \<and> rightOsc (binauralNodes s') = Some r
          \<and> frequency (nodes s' ! l) = \<lparr>param_value = 300, events = []\<rparr>
          \<and> frequency (nodes s' ! r) = \<lparr>param_value = 308, events = []\<rparr>)
   \<and> (\<exists>s'. updateBinauralFrequencies 300 8 playing_engine = Inr s'
          \<and> value_at (frequency (nodes s' ! 3)) 0 = 300
          \<and> value_at (frequency (nodes s' ! 4)) 0 = 308)"
proof -
  have h: "leftOsc (binauralNodes playing_engine) = Some 3"
    "rightOsc (binauralNodes playing_engine) = Some 4"
    by (simp_all add: playing_fields session_handle_def)
  note t = binaural_frequencies[OF reachable_playing playing_fields(1,2), of 300 8 0 0 Sine]
  from t have "\<exists>s' l r. startBinaural 300 8 0 0 Sine playing_engine = Inr s'
          \<and> leftOsc (binauralNodes s') = Some l \<and> rightOsc (binauralNodes s') = Some r
          \<and> frequency (nodes s' ! l) = \<lparr>param_value = 300, events = []\<rparr>
          \<and> frequency (nodes s' ! r) = \<lparr>param_value = 308, events = []\<rparr>"
    by auto
  moreover from t h have "\<exists>s'. updateBinauralFrequencies 300 8 playing_engine = Inr s'
          \<and> value_at (frequency (nodes s' ! 3)) 0 = 300
          \<and> value_at (frequency (nodes s' ! 4)) 0 = 308"
    by auto
  ultimately show ?thesis
    using reachable_playing playing_fields(1,2) h by simp
qed

text \<open>
  C2. In a reachable state with the engine initialised, \<open>startBinaural\<close> returns, and in
  the state it returns the tone gain is \<^verbatim>\<open>(1 - noiseMix) * 0.3\<close> and the noise gain is
  \<^verbatim>\<open>noiseMix * 0.3\<close> as the source computes them, in doubles. With a session active,
  \<open>updateNoiseMix\<close> schedules on the two gains a step to these two levels of \<open>mix\<close> at the
  current time of the audio clock, and these are the gains from that time. For a mix from
  0 to 1 the tone gain is within \<open>1 / 2 ^ 53\<close> of the exact \<open>(1 - mix) * 0.3\<close>, the noise gain
  within \<open>1 / 2 ^ 54\<close> of the exact \<open>mix * 0.3\<close>, and their sum within \<open>1 / 2 ^ 53\<close> of 0.3:
  the sum is 0.3 up to rounding, not exactly.
\<close>

theorem noise_mix_gains:
  assumes "reachable s" and "audioContext s = Some ctx" and "analyser s = Some a"
  shows "(\<exists>s' tg ng.
            startBinaural baseFreq beatFreq noiseMix panValue waveform s = Inr s'
          \<and> toneGain (binauralNodes s') = Some tg \<and> noiseGain (binauralNodes s') = Some ng
          \<and> tg < length (nodes s') \<and> ng < length (nodes s') \<and> tg \<noteq> ng
          \<and> kind (nodes s' ! tg) = GainNode \<and> kind (nodes s' ! ng) = GainNode
          \<and> gain (nodes s' ! tg) =
              \<lparr>param_value = double (double (1 - noiseMix) * double 0.3), events = []\<rparr>
          \<and> gain (nodes s' ! ng) =
              \<lparr>param_value = double (noiseMix * double 0.3), events = []\<rparr>
          \<and> (\<forall>t. value_at (gain (nodes s' ! tg)) t = double (double (1 - noiseMix) * double 0.3)
                \<and> value_at (gain (nodes s' ! ng)) t = double (noiseMix * double 0.3)
                \<and> (0 \<le> noiseMix \<and> noiseMix \<le> 1 \<longrightarrow>
                      \<bar>value_at (gain (nodes s' ! tg)) t - (1 - noiseMix) * 0.3\<bar> \<le> 1 / 2 ^ 53
                    \<and> \<bar>value_at (gain (nodes s' ! ng)) t - noiseMix * 0.3\<bar> \<le> 1 / 2 ^ 54
                    \<and> \<bar>value_at (gain (nodes s' ! tg)) t + value_at (gain (nodes s' ! ng)) t - 0.3\<bar>
                        \<le> 1 / 2 ^ 53)))
       \<and> (\<forall>tg ng. toneGain (binauralNodes s) = Some tg \<and> noiseGain (binauralNodes s) = Some ng \<longrightarrow>
            (\<exists>s'. updateNoiseMix mix s = Inr s'
              \<and> binauralNodes s' = binauralNodes s
              \<and> events (gain (nodes s' ! tg)) =
                  events (gain (nodes s ! tg))
                    @ [SetValueAtTime (double (double (1 - mix) * double 0.3)) (currentTime ctx)]
              \<and> events (gain (nodes s' ! ng)) =
                  events (gain (nodes s ! ng))
                    @ [SetValueAtTime (double (mix * double 0.3)) (currentTime ctx)]
              \<and> value_at (gain (nodes s' ! tg)) (currentTime ctx)
                  = double (double (1 - mix) * double 0.3)
              \<and> value_at (gain (nodes s' ! ng)) (currentTime ctx) = double (mix * double 0.3)
              \<and> (0 \<le> mix \<and> mix \<le> 1 \<longrightarrow>
                    \<bar>value_at (gain (nodes s' ! tg)) (currentTime ctx) - (1 - mix) * 0.3\<bar>
                      \<le> 1 / 2 ^ 53
                  \<and> \<bar>value_at (gain (nodes s' ! ng)) (currentTime ctx) - mix * 0.3\<bar>
                      \<le> 1 / 2 ^ 54
                  \<and> \<bar>value_at (gain (nodes s' ! tg)) (currentTime ctx)
                      + value_at (gain (nodes s' ! ng)) (currentTime ctx) - 0.3\<bar> \<le> 1 / 2 ^ 53)))"
proof -
  have ok: "handle_ok s" using reachable_invariant[OF assms(1)] by simp
  have bounds: "0 \<le> m \<and> m \<le> 1 \<longrightarrow>
        \<bar>double (double (1 - m) * double 0.3) - (1 - m) * 0.3\<bar> \<le> 1 / 2 ^ 53
      \<and> \<bar>double (m * double 0.3) - m * 0.3\<bar> \<le> 1 / 2 ^ 54
      \<and> \<bar>double (double (1 - m) * double 0.3) + double (m * double 0.3) - 0.3\<bar> \<le> 1 / 2 ^ 53"
    for m
    using tone_level_error[of m] noise_mix_levels[of m] by simp
  obtain s' where s':
    "startBinaural baseFreq beatFreq noiseMix panValue waveform s = Inr s'"
    "binauralNodes s' = session_handle (length (nodes s))"
    "length (nodes s') = length (nodes s) + 13"
    "kind (nodes s' ! (length (nodes s) + 5)) = GainNode"
    "kind (nodes s' ! (length (nodes s) + 6)) = GainNode"
    "gain (nodes s' ! (length (nodes s) + 5)) =
       \<lparr>param_value = double (double (1 - noiseMix) * double 0.3), events = []\<rparr>"
    "gain (nodes s' ! (length (nodes s) + 6)) =
       \<lparr>param_value = double (noiseMix * double 0.3), events = []\<rparr>"
    using startBinaural_levels[OF ok assms(2,3), of baseFreq beatFreq noiseMix panValue waveform]
    by blast
  have start: "\<exists>s' tg ng.
            startBinaural baseFreq beatFreq noiseMix panValue waveform s = Inr s'
          \<and> toneGain (binauralNodes s') = Some tg \<and> noiseGain (binauralNodes s') = Some ng
          \<and> tg < length (nodes s') \<and> ng < length (nodes s') \<and> tg \<noteq> ng
          \<and> kind (nodes s' ! tg) = GainNode \<and> kind (nodes s' ! ng) = GainNode
          \<and> gain (nodes s' ! tg) =
              \<lparr>param_value = double (double (1 - noiseMix) * double 0.3), events = []\<rparr>
          \<and> gain (nodes s' ! ng) =
              \<lparr>param_value = double (noiseMix * double 0.3), events = []\<rparr>
          \<and> (\<forall>t. value_at (gain (nodes s' ! tg)) t = double (double (1 - noiseMix) * double 0.3)
                \<and> value_at (gain (nodes s' ! ng)) t = double (noiseMix * double 0.3)
                \<and> (0 \<le> noiseMix \<and> noiseMix \<le> 1 \<longrightarrow>
                      \<bar>value_at (gain (nodes s' ! tg)) t - (1 - noiseMix) * 0.3\<bar> \<le> 1 / 2 ^ 53
                    \<and> \<bar>value_at (gain (nodes s' ! ng)) t - noiseMix * 0.3\<bar> \<le> 1 / 2 ^ 54
                    \<and> \<bar>value_at (gain (nodes s' ! tg)) t + value_at (gain (nodes s' ! ng)) t - 0.3\<bar>
                        \<le> 1 / 2 ^ 53))"
    using s' bounds[of noiseMix]
    by (intro exI[of _ s'] exI[of _ "length (nodes s) + 5"] exI[of _ "length (nodes s) + 6"])
       (simp add: session_handle_def)
  have update: "\<exists>s'. updateNoiseMix mix s = Inr s'
              \<and> binauralNodes s' = binauralNodes s
              \<and> events (gain (nodes s' ! tg)) =
                  events (gain (nodes s ! tg))
                    @ [SetValueAtTime (double (double (1 - mix) * double 0.3)) (currentTime ctx)]
              \<and> events (gain (nodes s' ! ng)) =
                  events (gain (nodes s ! ng))
                    @ [SetValueAtTime (double (mix * double 0.3)) (currentTime ctx)]
              \<and> value_at (gain (nodes s' ! tg)) (currentTime ctx)
                  = double (double (1 - mix) * double 0.3)
              \<and> value_at (gain (nodes s' ! ng)) (currentTime ctx) = double (mix * double 0.3)
              \<and> (0 \<le> mix \<and> mix \<le> 1 \<longrightarrow>
                    \<bar>value_at (gain (nodes s' ! tg)) (currentTime ctx) - (1 - mix) * 0.3\<bar>
                      \<le> 1 / 2 ^ 53
                  \<and> \<bar>value_at (gain (nodes s' ! ng)) (currentTime ctx) - mix * 0.3\<bar>
                      \<le> 1 / 2 ^ 54
                  \<and> \<bar>value_at (gain (nodes s' ! tg)) (currentTime ctx)
                      + value_at (gain (nodes s' ! ng)) (currentTime ctx) - 0.3\<bar> \<le> 1 / 2 ^ 53)"
    if h: "toneGain (binauralNodes s) = Some tg \<and> noiseGain (binauralNodes s) = Some ng"
    for tg ng
  proof -
    from h have "binauralNodes s \<noteq> null_nodes" by (auto simp: null_nodes_def)
    with ok obtain n where n: "binauralNodes s = session_handle n" "n + 13 \<le> length (nodes s)"
      by (rule handle_ok_session)
    with h have tg: "tg = n + 5" and ng: "ng = n + 6" by (simp_all add: session_handle_def)
    obtain u where u: "updateNoiseMix mix s = Inr u"
      "binauralNodes u = binauralNodes s"
      "events (gain (nodes u ! (n + 5))) =
         events (gain (nodes s ! (n + 5)))
           @ [SetValueAtTime (double (double (1 - mix) * double 0.3)) (currentTime ctx)]"
      "events (gain (nodes u ! (n + 6))) =
         events (gain (nodes s ! (n + 6)))
           @ [SetValueAtTime (double (mix * double 0.3)) (currentTime ctx)]"
      "value_at (gain (nodes u ! (n + 5))) (currentTime ctx)
         = double (double (1 - mix) * double 0.3)"
      "value_at (gain (nodes u ! (n + 6))) (currentTime ctx) = double (mix * double 0.3)"
      using updateNoiseMix_session[OF n assms(2), of mix] by blast
    show ?thesis
      using u bounds[of mix] unfolding tg ng
      by (intro exI[of _ u]) simp
  qed
  from start update show ?thesis by blast
qed


theorem noise_mix_gains_witness:
  "reachable playing_engine
   \<and> audioContext playing_engine = Some \<lparr>sampleRate = 10, currentTime = 0, destination = 0\<rparr>
   \<and> analyser playing_engine = Some 1
   \<and> toneGain (binauralNodes playing_engine) = Some 7
   \<and> noiseGain (binauralNodes playing_engine) = Some 8
   \<and> (0::real) \<le> 1 / 4 \<and> (1 / 4 :: real) \<le> 1
   \<and> (\<exists>s' tg ng. startBinaural 300 8 (1 / 4) 0 Sine playing_engine = Inr s'
          \<and> toneGain (binauralNodes s') = Some tg \<and> noiseGain (binauralNodes s') = Some ng
          \<and> gain (nodes s' ! tg) =
              \<lparr>param_value = double (double (1 - 1 / 4) * double 0.3), events = []\<rparr>
          \<and> gain (nodes s' ! ng) = \<lparr>param_value = double (1 / 4 * double 0.3), events = []\<rparr>
          \<and> \<bar>value_at (gain (nodes s' ! tg)) 0 + value_at (gain (nodes s' ! ng)) 0 - 0.3\<bar>
              \<le> 1 / 2 ^ 53)
   \<and> (\<exists>s'. updateNoiseMix (1 / 4) playing_engine = Inr s'
          \<and> value_at (gain (nodes s' ! 7)) 0 = double (double (1 - 1 / 4) * double 0.3)
          \<and> value_at (gain (nodes s' ! 8)) 0 = double (1 / 4 * double 0.3)
          \<and> \<bar>value_at (gain (nodes s' ! 7)) 0 + value_at (gain (nodes s' ! 8)) 0 - 0.3\<bar>
              \<le> 1 / 2 ^ 53)"
proof -
  have h: "toneGain (binauralNodes playing_engine) = Some 7"
    "noiseGain (binauralNodes playing_engine) = Some 8"
    by (simp_all add: playing_fields session_handle_def)
  note t = noise_mix_gains[OF reachable_playing playing_fields(1,2), of 300 8 "1 / 4" 0 Sine "1 / 4"]
  from t have "\<exists>s' tg ng. startBinaural 300 8 (1 / 4) 0 Sine playing_engine = Inr s'
          \<and> toneGain (binauralNodes s') = Some tg \<and> noiseGain (binauralNodes s') = Some ng
          \<and> gain (nodes s' ! tg) =
              \<lparr>param_value = double (double (1 - 1 / 4) * double 0.3), events = []\<rparr>
          \<and> gain (nodes s' ! ng) = \<lparr>param_value = double (1 / 4 * double 0.3), events = []\<rparr>
          \<and> \<bar>value_at (gain (nodes s' ! tg)) 0 + value_at (gain (nodes s' ! ng)) 0 - 0.3\<bar>
              \<le> 1 / 2 ^ 53"
    by auto
  moreover from t h have "\<exists>s'. updateNoiseMix (1 / 4) playing_engine = Inr s'
          \<and> value_at (gain (nodes s' ! 7)) 0 = double (double (1 - 1 / 4) * double 0.3)
          \<and> value_at (gain (nodes s' ! 8)) 0 = double (1 / 4 * double 0.3)
          \<and> \<bar>value_at (gain (nodes s' ! 7)) 0 + value_at (gain (nodes s' ! 8)) 0 - 0.3\<bar>
              \<le> 1 / 2 ^ 53"
    by auto
  ultimately show ?thesis
    using reachable_playing playing_fields(1,2) h by simp
qed

text \<open>
  C2, the sum: at a mix of 10 %, after \<open>startBinaural\<close> as after \<open>updateNoiseMix\<close>, the tone
  gain is \<open>4863887597560136 / 2 ^ 54\<close> and the noise gain \<open>8646911284551352 / 2 ^ 58\<close>. Their
  sum is above 0.3 by \<open>3 / 180143985094819840\<close>, and added as doubles they give the double
  after that of \<^verbatim>\<open>0.3\<close> (\<^verbatim>\<open>0.30000000000000004\<close>): the sum of the two gains is not 0.3.
\<close>

theorem noise_mix_sum_counterexample:
  "reachable mounted_engine
   \<and> audioContext mounted_engine = Some \<lparr>sampleRate = 10, currentTime = 0, destination = 0\<rparr>
   \<and> analyser mounted_engine = Some 1
   \<and> double (1 / 10) = 7205759403792794 / 2 ^ 56
   \<and> 0 \<le> double (1 / 10) \<and> double (1 / 10) \<le> 1
   \<and> double 0.3 = 5404319552844595 / 2 ^ 54
   \<and> startBinaural 400 14 (double (1 / 10)) 0 Sine mounted_engine = Inr focus_engine
   \<and> toneGain (binauralNodes focus_engine) = Some 7
   \<and> noiseGain (binauralNodes focus_engine) = Some 8
   \<and> value_at (gain (nodes focus_engine ! 7)) 0 = 4863887597560136 / 2 ^ 54
   \<and> value_at (gain (nodes focus_engine ! 8)) 0 = 8646911284551352 / 2 ^ 58
   \<and> value_at (gain (nodes focus_engine ! 7)) 0 + value_at (gain (nodes focus_engine ! 8)) 0
        = 3 / 10 + 3 / 180143985094819840
   \<and> value_at (gain (nodes focus_engine ! 7)) 0 + value_at (gain (nodes focus_engine ! 8)) 0
        \<noteq> 0.3
   \<and> double (value_at (gain (nodes focus_engine ! 7)) 0
               + value_at (gain (nodes focus_engine ! 8)) 0) = 5404319552844596 / 2 ^ 54
   \<and> double (value_at (gain (nodes focus_engine ! 7)) 0
               + value_at (gain (nodes focus_engine ! 8)) 0) \<noteq> double 0.3
   \<and> reachable playing_engine
   \<and> toneGain (binauralNodes playing_engine) = Some 7
   \<and> noiseGain (binauralNodes playing_engine) = Some 8
   \<and> updateNoiseMix (double (1 / 10)) playing_engine = Inr remixed_engine
   \<and> value_at (gain (nodes remixed_engine ! 7)) 0 = 4863887597560136 / 2 ^ 54
   \<and> value_at (gain (nodes remixed_engine ! 8)) 0 = 8646911284551352 / 2 ^ 58
   \<and> value_at (gain (nodes remixed_engine ! 7)) 0 + value_at (gain (nodes remixed_engine ! 8)) 0
        \<noteq> 0.3
   \<and> double (value_at (gain (nodes remixed_engine ! 7)) 0
               + value_at (gain (nodes remixed_engine ! 8)) 0) \<noteq> double 0.3"
proof -
  have c: "double 0.3 = 5404319552844595 / 2 ^ 54"
    using double_three_tenths by simp
  have tone: "double (double (1 - double (1 / 10)) * double 0.3) = 4863887597560136 / 2 ^ 54"
    using tone_one_tenth by simp
  have noise: "double (double (1 / 10) * double 0.3) = 8646911284551352 / 2 ^ 58"
    using noise_one_tenth by simp
  have ok: "handle_ok mounted_engine"
    using reachable_invariant[OF reachable_mounted] by simp
  obtain f where f: "startBinaural 400 14 (double (1 / 10)) 0 Sine mounted_engine = Inr f"
    "binauralNodes f = session_handle (length (nodes mounted_engine))"
    "gain (nodes f ! (length (nodes mounted_engine) + 5)) =
       \<lparr>param_value = double (double (1 - double (1 / 10)) * double 0.3), events = []\<rparr>"
    "gain (nodes f ! (length (nodes mounted_engine) + 6)) =
       \<lparr>param_value = double (double (1 / 10) * double 0.3), events = []\<rparr>"
    using startBinaural_levels[OF ok mounted_initialised(1,2), of 400 14 "double (1 / 10)" 0 Sine]
    by blast
  have fe: "focus_engine = f" by (simp add: focus_engine_def f(1))
  have f7: "value_at (gain (nodes focus_engine ! 7)) 0 = 4863887597560136 / 2 ^ 54"
    using f(3) unfolding fe mounted_initialised(5) tone by simp
  have f8: "value_at (gain (nodes focus_engine ! 8)) 0 = 8646911284551352 / 2 ^ 58"
    using f(4) unfolding fe mounted_initialised(5) noise by simp
  have fh: "toneGain (binauralNodes focus_engine) = Some 7"
    "noiseGain (binauralNodes focus_engine) = Some 8"
    using f(2) unfolding fe mounted_initialised(5) by (simp_all add: session_handle_def)
  obtain u where u: "updateNoiseMix (double (1 / 10)) playing_engine = Inr u"
    "value_at (gain (nodes u ! (2 + 5))) 0 = double (double (1 - double (1 / 10)) * double 0.3)"
    "value_at (gain (nodes u ! (2 + 6))) 0 = double (double (1 / 10) * double 0.3)"
    using updateNoiseMix_session[OF playing_fields(3) _ playing_fields(1), of "double (1 / 10)"]
      playing_fields(5)
    by auto
  have re: "remixed_engine = u" by (simp add: remixed_engine_def u(1))
  have r7: "value_at (gain (nodes remixed_engine ! 7)) 0 = 4863887597560136 / 2 ^ 54"
    using u(2) unfolding re tone by simp
  have r8: "value_at (gain (nodes remixed_engine ! 8)) 0 = 8646911284551352 / 2 ^ 58"
    using u(3) unfolding re noise by simp
  have h: "toneGain (binauralNodes playing_engine) = Some 7"
    "noiseGain (binauralNodes playing_engine) = Some 8"
    by (simp_all add: playing_fields session_handle_def)
  have s: "double (4863887597560136 / 2 ^ 54 + 8646911284551352 / 2 ^ 58)
      = 5404319552844596 / 2 ^ 54"
    by (rule sum_one_tenth)
  have sum: "(4863887597560136 / 2 ^ 54 + 8646911284551352 / 2 ^ 58 :: real)
      = 3 / 10 + 3 / 180143985094819840"
    by simp
  have ne: "(4863887597560136 / 2 ^ 54 + 8646911284551352 / 2 ^ 58 :: real) \<noteq> 0.3"
    by simp
  have ne2: "(5404319552844596 / 2 ^ 54 :: real) \<noteq> 5404319552844595 / 2 ^ 54"
    by simp
  have range: "0 \<le> double (1 / 10)" "double (1 / 10) \<le> 1"
    unfolding double_one_tenth by simp_all
  show ?thesis
    unfolding f7 f8 r7 r8 s c
    by (intro conjI reachable_mounted reachable_playing mounted_initialised(1,2)
          double_one_tenth range fh h sum ne ne2 refl)
       (simp_all only: f(1) fe u(1) re)
qed




text \<open>
  C4. \<open>stopBinaural\<close> with no session active returns the state unchanged. In every reachable
  state it returns, without an error, a state whose handle is all null, as in the state of
  the first render, and on which it returns the same state again. \<open>stopChord\<close> returns in every
  state whatever, stopped or never started oscillators in its list included, and leaves the
  list empty; called again, or with an empty list, it returns the state unchanged. In a
  reachable state, moreover, every source of the handle and every chord oscillator has been
  started and is not stopped yet: neither function meets a source that was stopped before.
\<close>

theorem stop_is_idempotent:
  "(binauralNodes s = null_nodes \<longrightarrow> stopBinaural s = Inr s)
   \<and> (reachable s \<longrightarrow>
        (\<exists>s'. stopBinaural s = Inr s' \<and> binauralNodes s' = null_nodes
             \<and> binauralNodes s' = binauralNodes (initial_engine rv)
             \<and> stopBinaural s' = Inr s'))
   \<and> (\<exists>s'. stopChord s = Inr s' \<and> chordOscillators s' = [] \<and> stopChord s' = Inr s')
   \<and> (chordOscillators s = [] \<longrightarrow> stopChord s = Inr s)
   \<and> (reachable s \<longrightarrow> sources_live s)"
proof (intro conjI impI)
  assume "binauralNodes s = null_nodes"
  then show "stopBinaural s = Inr s" by (rule stopBinaural_null)
next
  assume "reachable s"
  then have ok: "handle_ok s" by (simp add: reachable_invariant)
  let ?s' = "s\<lparr>nodes := stopped_store s, binauralNodes := null_nodes\<rparr>"
  have "stopBinaural s = Inr ?s'" by (rule stopBinaural_eq[OF ok])
  moreover have "binauralNodes ?s' = null_nodes" by simp
  moreover have "binauralNodes ?s' = binauralNodes (initial_engine rv)"
    by (simp add: initial_engine_def)
  moreover have "stopBinaural ?s' = Inr ?s'" by (rule stopBinaural_null) simp
  ultimately show "\<exists>s'. stopBinaural s = Inr s' \<and> binauralNodes s' = null_nodes
             \<and> binauralNodes s' = binauralNodes (initial_engine rv)
             \<and> stopBinaural s' = Inr s'"
    by blast
next
  let ?s' = "s\<lparr>nodes := silenced s, chordOscillators := []\<rparr>"
  have "stopChord s = Inr ?s'" by (rule stopChord_Inr)
  moreover have "stopChord ?s' = Inr ?s'" by (simp add: stopChord_def)
  ultimately show "\<exists>s'. stopChord s = Inr s' \<and> chordOscillators s' = [] \<and> stopChord s' = Inr s'"
    by (intro exI[of _ ?s']) simp
next
  assume "chordOscillators s = []"
  then show "stopChord s = Inr s" by (simp add: stopChord_def)
next
  assume "reachable s"
  then show "sources_live s" by (rule reachable_sources_live)
qed

theorem stop_is_idempotent_witness:
  "binauralNodes mounted_engine = null_nodes
   \<and> stopBinaural mounted_engine = Inr mounted_engine
   \<and> reachable playing_engine
   \<and> stopBinaural playing_engine = Inr stopped_engine
   \<and> binauralNodes stopped_engine = null_nodes
   \<and> stopBinaural stopped_engine = Inr stopped_engine
   \<and> chordOscillators mounted_engine = []
   \<and> stopChord mounted_engine = Inr mounted_engine
   \<and> sources_live playing_engine"
proof -
  note m = stop_is_idempotent[of mounted_engine "\<lambda>_. 0"]
  note p = stop_is_idempotent[of playing_engine "\<lambda>_. 0"]
  have 1: "stopBinaural mounted_engine = Inr mounted_engine"
    by (rule mp[OF conjunct1[OF m] mounted_initialised(3)])
  from mp[OF conjunct1[OF conjunct2[OF p]] reachable_playing]
  have 2: "stopBinaural stopped_engine = Inr stopped_engine"
    by (auto simp: stop_playing)
  have 3: "stopChord mounted_engine = Inr mounted_engine"
    by (rule mp[OF conjunct1[OF conjunct2[OF conjunct2[OF conjunct2[OF m]]]]
          mounted_initialised(4)])
  have 4: "sources_live playing_engine"
    by (rule mp[OF conjunct2[OF conjunct2[OF conjunct2[OF conjunct2[OF p]]]] reachable_playing])
  show ?thesis
    by (intro conjI)
       (rule mounted_initialised(3,4) 1 reachable_playing stop_playing stopped_fields(1) 2 3 4)+
qed

text \<open>
  C5. Loading the drum samples stores three buffers, under \<open>kick\<close>, \<open>snare\<close> and \<open>hihat\<close>, each
  of one channel at the context's sample rate, whose sample \<open>i\<close> is the formula of the
  specification at \<open>t = i / sampleRate\<close>: the kick has the samples of half a second, the snare
  those of 0.2 seconds, the hi-hat those of 0.1 seconds. The noise of a sample is
  \<open>2 r - 1\<close> for a draw \<open>r\<close> of the random sequence of its own: the snare takes the draws from
  the current position on, the hi-hat those after the snare's. After the effect the bank
  holds these three buffers and no other.
\<close>

theorem drum_sample_bank:
  "drumBuffers (loadDrumSamples ctx s) = (drumBuffers s)
     (''kick'' \<mapsto>
        \<lparr>buffer_sampleRate = sampleRate ctx,
         channelData =
           [map (\<lambda>i. kick_amplitude (real i / sampleRate ctx))
              [0..<nat \<lfloor>sampleRate ctx * 0.5\<rfloor>]]\<rparr>,
      ''snare'' \<mapsto>
        \<lparr>buffer_sampleRate = sampleRate ctx,
         channelData =
           [map (\<lambda>i. snare_amplitude (random_values s (random_pos s + i) * 2 - 1)
                        (real i / sampleRate ctx))
              [0..<nat \<lfloor>sampleRate ctx * 0.2\<rfloor>]]\<rparr>,
      ''hihat'' \<mapsto>
        \<lparr>buffer_sampleRate = sampleRate ctx,
         channelData =
           [map (\<lambda>i. hihat_amplitude
                        (random_values s (random_pos s + nat \<lfloor>sampleRate ctx * 0.2\<rfloor> + i) * 2 - 1)
                        (real i / sampleRate ctx))
              [0..<nat \<lfloor>sampleRate ctx * 0.1\<rfloor>]]\<rparr>)
   \<and> dom (drumBuffers (useEffect_mount rate (initial_engine rv))) = {''kick'', ''snare'', ''hihat''}
   \<and> kick_amplitude t = sin (2 * pi * 60 * t) * exp (- t / 0.1) * 0.5
   \<and> snare_amplitude noise t = (noise * 0.3 + sin (2 * pi * 200 * t) * 0.2) * exp (- t / 0.05)
   \<and> hihat_amplitude noise t = noise * exp (- t / 0.02) * 0.3"
proof -
  have "dom (drumBuffers (useEffect_mount rate (initial_engine rv))) = {''kick'', ''snare'', ''hihat''}"
    by (auto simp: useEffect_mount_eq Let_def initial_engine_def)
  then show ?thesis
    by (simp add: loadDrumSamples_eq kick_buffer_def snare_buffer_def hihat_buffer_def
          kick_amplitude_def snare_amplitude_def hihat_amplitude_def)
qed

text \<open>
  C6. In a reachable state with the engine initialised, \<open>playChord\<close> returns. In the state it
  returns there are, after the old nodes, a chord gain of \<open>volume * 0.2\<close> that feeds the
  analyser and, for each note, a sine oscillator at the note's frequency, started, and a
  gain of \<open>1 / N\<close> between it and the chord gain, \<open>N\<close> the number of notes; the chord
  oscillators are those of the new notes, and every oscillator of the chord held before
  is stopped, disconnected and no longer in the list.
\<close>

theorem chord_voices_and_gains:
  assumes "reachable s" and "audioContext s = Some ctx" and "analyser s = Some a"
  shows "\<exists>s' g. playChord ns octave volume s = Inr s' \<and> g = length (nodes s)
       \<and> length (nodes s') = g + 1 + 2 * length ns
       \<and> nodes s' ! g =
           (new_node GainNode)
             \<lparr>gain := \<lparr>param_value = volume * 0.2, events = []\<rparr>, outputs := [(a, 0, 0)]\<rparr>
       \<and> chordOscillators s' = map (\<lambda>j. g + 1 + 2 * j) [0..<length ns]
       \<and> (\<forall>j < length ns.
             nodes s' ! (g + 1 + 2 * j) =
               (new_node OscillatorNode)
                 \<lparr>osc_type := Sine,
                  frequency := \<lparr>param_value = semitoneToFrequency (ns ! j) octave, events = []\<rparr>,
                  started := True, outputs := [(g + 2 + 2 * j, 0, 0)]\<rparr>
           \<and> nodes s' ! (g + 2 + 2 * j) =
               (new_node GainNode)
                 \<lparr>gain := \<lparr>param_value = 1 / real (length ns), events = []\<rparr>,
                  outputs := [(g, 0, 0)]\<rparr>)
       \<and> (\<forall>i \<in> set (chordOscillators s).
             stopped (nodes s' ! i) \<and> outputs (nodes s' ! i) = []
           \<and> i \<notin> set (chordOscillators s'))"
proof -
  let ?g = "length (nodes s)"
  let ?s' = "s\<lparr>nodes := silenced s @
               (new_node GainNode)
                  \<lparr>gain := \<lparr>param_value = volume * 0.2, events = []\<rparr>, outputs := [(a, 0, 0)]\<rparr>
               # chord_voices ?g octave (length ns) (?g + 1) ns,
            chordOscillators := voice_ids (?g + 1) (length ns)\<rparr>"
  have chords: "chords_ok s" using reachable_invariant[OF assms(1)] by simp
  have run: "playChord ns octave volume s = Inr ?s'"
    by (rule playChord_eq[OF assms(2,3)])
  have len: "length (nodes ?s') = ?g + 1 + 2 * length ns" by simp
  have cg: "nodes ?s' ! ?g =
           (new_node GainNode)
             \<lparr>gain := \<lparr>param_value = volume * 0.2, events = []\<rparr>, outputs := [(a, 0, 0)]\<rparr>"
    by (simp add: nth_append)
  have ids: "chordOscillators ?s' = map (\<lambda>j. ?g + 1 + 2 * j) [0..<length ns]"
    by (simp add: voice_ids_eq)
  have voices: "nodes ?s' ! (?g + 1 + 2 * j) =
               (new_node OscillatorNode)
                 \<lparr>osc_type := Sine,
                  frequency := \<lparr>param_value = semitoneToFrequency (ns ! j) octave, events = []\<rparr>,
                  started := True, outputs := [(?g + 2 + 2 * j, 0, 0)]\<rparr>
           \<and> nodes ?s' ! (?g + 2 + 2 * j) =
               (new_node GainNode)
                 \<lparr>gain := \<lparr>param_value = 1 / real (length ns), events = []\<rparr>,
                  outputs := [(?g, 0, 0)]\<rparr>" if "j < length ns" for j
  proof -
    have "nodes ?s' ! (?g + 1 + 2 * j) = chord_voices ?g octave (length ns) (?g + 1) ns ! (2 * j)"
      by (simp add: nth_append)
    moreover have "nodes ?s' ! (?g + 2 + 2 * j)
        = chord_voices ?g octave (length ns) (?g + 1) ns ! (2 * j + 1)"
      by (simp add: nth_append)
    ultimately show ?thesis
      using nth_chord_voices_osc[OF that, of ?g octave "length ns" "?g + 1"]
        nth_chord_voices_gain[OF that, of ?g octave "length ns" "?g + 1"]
      by simp
  qed
  have old: "stopped (nodes ?s' ! i) \<and> outputs (nodes ?s' ! i) = []
           \<and> i \<notin> set (chordOscillators ?s')" if "i \<in> set (chordOscillators s)" for i
    using silenced_chord[OF chords that] by (auto simp: nth_append voice_ids_eq)
  from run len cg ids voices old show ?thesis
    by (intro exI[of _ ?s'] exI[of _ ?g]) blast
qed

theorem chord_voices_and_gains_witness:
  "reachable chord_engine
   \<and> audioContext chord_engine = Some \<lparr>sampleRate = 10, currentTime = 0, destination = 0\<rparr>
   \<and> analyser chord_engine = Some 1
   \<and> chordOscillators chord_engine = [3, 5, 7]
   \<and> (\<exists>s'. playChord [2, 5, 9] 4 (1 / 2) chord_engine = Inr s'
        \<and> length (nodes s') = 16
        \<and> chordOscillators s' = [10, 12, 14]
        \<and> gain (nodes s' ! 9) = \<lparr>param_value = 1 / 10, events = []\<rparr>
        \<and> frequency (nodes s' ! 10) = \<lparr>param_value = semitoneToFrequency 2 4, events = []\<rparr>
        \<and> gain (nodes s' ! 11) = \<lparr>param_value = 1 / 3, events = []\<rparr>
        \<and> stopped (nodes s' ! 3) \<and> outputs (nodes s' ! 3) = [] \<and> 3 \<notin> set (chordOscillators s'))"
proof -
  from chord_voices_and_gains[OF chord_fields(1,2,3), of "[2, 5, 9]" 4 "1 / 2"]
  obtain s' where s': "playChord [2, 5, 9] 4 (1 / 2) chord_engine = Inr s'"
    "length (nodes s') = 9 + 1 + 2 * length [2, 5, 9::real]"
    "nodes s' ! 9 = (new_node GainNode)
             \<lparr>gain := \<lparr>param_value = 1 / 2 * 0.2, events = []\<rparr>, outputs := [(1, 0, 0)]\<rparr>"
    "chordOscillators s' = map (\<lambda>j. 9 + 1 + 2 * j) [0..<length [2, 5, 9::real]]"
    "\<forall>j < length [2, 5, 9::real].
             nodes s' ! (9 + 1 + 2 * j) =
               (new_node OscillatorNode)
                 \<lparr>osc_type := Sine,
                  frequency := \<lparr>param_value = semitoneToFrequency ([2, 5, 9] ! j) 4, events = []\<rparr>,
                  started := True, outputs := [(9 + 2 + 2 * j, 0, 0)]\<rparr>
           \<and> nodes s' ! (9 + 2 + 2 * j) =
               (new_node GainNode)
                 \<lparr>gain := \<lparr>param_value = 1 / real (length [2, 5, 9::real]), events = []\<rparr>,
                  outputs := [(9, 0, 0)]\<rparr>"
    "\<forall>i \<in> set (chordOscillators chord_engine).
             stopped (nodes s' ! i) \<and> outputs (nodes s' ! i) = []
           \<and> i \<notin> set (chordOscillators s')"
    unfolding chord_fields(5) by blast
  from s'(5)[rule_format, of 0] have v: "frequency (nodes s' ! 10)
        = \<lparr>param_value = semitoneToFrequency 2 4, events = []\<rparr>"
     "gain (nodes s' ! 11) = \<lparr>param_value = 1 / 3, events = []\<rparr>"
    by simp_all
  from s'(6)[rule_format, of 3] have old: "stopped (nodes s' ! 3)" "outputs (nodes s' ! 3) = []"
    "3 \<notin> set (chordOscillators s')"
    by (simp_all add: chord_fields(4))
  have "length (nodes s') = 16" "chordOscillators s' = [10, 12, 14]"
    "gain (nodes s' ! 9) = \<lparr>param_value = 1 / 10, events = []\<rparr>"
    using s'(2,3,4) by (simp_all add: upt_rec)
  with s'(1) v old chord_fields(1,2,3,4) show ?thesis by blast
qed

text \<open>
  C7. For every integer semitone and octave, \<open>semitoneToFrequency\<close> is
  \<open>261.63 \<sqdot> 2^(semitone/12) \<sqdot> 2^(octave-4)\<close>; at \<open>(0, 4)\<close> it is 261.63, at \<open>(12, 4)\<close> and at
  \<open>(0, 5)\<close> it is 523.26, and in general twelve semitones up, or one octave up, double
  the frequency.
\<close>

theorem semitoneToFrequency_formula:
  fixes semitone octave :: int
  shows "semitoneToFrequency (real_of_int semitone) (real_of_int octave)
           = 261.63 * 2 powr (real_of_int semitone / 12) * 2 powr (real_of_int octave - 4)
       \<and> semitoneToFrequency 0 4 = 261.63
       \<and> semitoneToFrequency 12 4 = 523.26
       \<and> semitoneToFrequency 0 5 = 523.26
       \<and> semitoneToFrequency (real_of_int (semitone + 12)) (real_of_int octave)
           = 2 * semitoneToFrequency (real_of_int semitone) (real_of_int octave)
       \<and> semitoneToFrequency (real_of_int semitone) (real_of_int (octave + 1))
           = 2 * semitoneToFrequency (real_of_int semitone) (real_of_int octave)"
proof -
  have twelve: "2 powr ((real_of_int semitone + 12) / 12) = 2 * 2 powr (real_of_int semitone / 12)"
  proof -
    have "(real_of_int semitone + 12) / 12 = real_of_int semitone / 12 + 1"
      by (simp add: add_divide_distrib)
    then have "2 powr ((real_of_int semitone + 12) / 12) = 2 powr (real_of_int semitone / 12 + 1)"
      by (rule arg_cong)
    then show ?thesis by (simp only: powr_add) simp
  qed
  have oct: "2 powr (real_of_int octave + 1 - 4) = 2 * 2 powr (real_of_int octave - 4)"
  proof -
    have "real_of_int octave + 1 - 4 = (real_of_int octave - 4) + 1"
      by simp
    then have "2 powr (real_of_int octave + 1 - 4) = 2 powr ((real_of_int octave - 4) + 1)"
      by (rule arg_cong)
    then show ?thesis by (simp only: powr_add) simp
  qed
  have general: "semitoneToFrequency (real_of_int semitone) (real_of_int octave)
           = 261.63 * 2 powr (real_of_int semitone / 12) * 2 powr (real_of_int octave - 4)"
    by (simp add: semitoneToFrequency_def)
  have c4: "semitoneToFrequency 0 4 = 261.63"
    by (simp add: semitoneToFrequency_def)
  have c5: "semitoneToFrequency 12 4 = 523.26"
    by (simp add: semitoneToFrequency_def)
  have c4': "semitoneToFrequency 0 5 = 523.26"
    by (simp add: semitoneToFrequency_def)
  have up12: "semitoneToFrequency (real_of_int (semitone + 12)) (real_of_int octave)
           = 2 * semitoneToFrequency (real_of_int semitone) (real_of_int octave)"
    unfolding semitoneToFrequency_def Let_def of_int_add of_int_numeral twelve by simp
  have up8: "semitoneToFrequency (real_of_int semitone) (real_of_int (octave + 1))
           = 2 * semitoneToFrequency (real_of_int semitone) (real_of_int octave)"
    unfolding semitoneToFrequency_def Let_def of_int_add of_int_1 oct by simp
  from general c4 c5 c4' up12 up8 show ?thesis by blast
qed

text \<open>
  C8. With no session active, that is with the handle all null, each of
  \<open>updateBinauralFrequencies\<close>, \<open>updateNoiseMix\<close>, \<open>updatePanning\<close> and \<open>updateWaveform\<close>
  returns without an error and leaves the state as it was. The handle is all null in the
  state of the first render, after the effect has run on it, and in every state
  \<open>stopBinaural\<close> returns.
\<close>

theorem updates_without_session:
  "(binauralNodes s = null_nodes \<longrightarrow>
      updateBinauralFrequencies baseFreq beatFreq s = Inr s
    \<and> updateNoiseMix mix s = Inr s
    \<and> updatePanning panValue s = Inr s
    \<and> updateWaveform waveform s = Inr s)
   \<and> binauralNodes (initial_engine rv) = null_nodes
   \<and> binauralNodes (useEffect_mount rate (initial_engine rv)) = null_nodes
   \<and> (stopBinaural s0 = Inr s1 \<longrightarrow> binauralNodes s1 = null_nodes)"
proof -
  have "updateBinauralFrequencies baseFreq beatFreq s = Inr s
    \<and> updateNoiseMix mix s = Inr s
    \<and> updatePanning panValue s = Inr s
    \<and> updateWaveform waveform s = Inr s" if "binauralNodes s = null_nodes"
    using that
    by (simp add: updateBinauralFrequencies_def updateNoiseMix_def updatePanning_def
          updateWaveform_def null_nodes_def)
  moreover have "binauralNodes (initial_engine rv) = null_nodes"
    by (simp add: initial_engine_def)
  moreover have "binauralNodes (useEffect_mount rate (initial_engine rv)) = null_nodes"
    by (simp add: useEffect_mount_eq Let_def initial_engine_def)
  moreover have "binauralNodes s1 = null_nodes" if "stopBinaural s0 = Inr s1"
    using that by (rule stopBinaural_clears)
  ultimately show ?thesis by blast
qed

theorem updates_without_session_witness:
  "binauralNodes mounted_engine = null_nodes
   \<and> updateBinauralFrequencies 300 8 mounted_engine = Inr mounted_engine
   \<and> updateNoiseMix (1 / 2) mounted_engine = Inr mounted_engine
   \<and> updatePanning (1 / 2) mounted_engine = Inr mounted_engine
   \<and> updateWaveform Square mounted_engine = Inr mounted_engine
   \<and> stopBinaural playing_engine = Inr stopped_engine
   \<and> binauralNodes stopped_engine = null_nodes"
  using updates_without_session[of mounted_engine 300 8 "1 / 2" "1 / 2" Square "\<lambda>_. 1 / 2" 10
          playing_engine stopped_engine]
  by (simp add: mounted_initialised stop_playing)

text \<open>
  C9. In a reachable state, \<open>playDrumSound\<close> with a type other than \<open>kick\<close>, \<open>snare\<close> and \<open>hihat\<close>
  returns the state unchanged. With one of the three and the engine initialised, the bank
  holds a buffer for the type, and the call returns the state with two new nodes: a buffer
  source that holds this buffer, does not loop, has been started and feeds the second, a
  gain of 0.5 that feeds the analyser. Whatever the call returns, the bank is as before;
  and the bank of an initialised engine holds the buffers computed from its context.
\<close>

theorem drum_trigger:
  assumes "reachable s"
  shows "(drumType \<notin> {''kick'', ''snare'', ''hihat''} \<longrightarrow> playDrumSound drumType s = Inr s)
       \<and> (\<forall>ctx a. audioContext s = Some ctx \<and> analyser s = Some a
                  \<and> drumType \<in> {''kick'', ''snare'', ''hihat''} \<longrightarrow>
            (\<exists>b. drumBuffers s drumType = Some b
               \<and> playDrumSound drumType s =
                   Inr (s\<lparr>nodes := nodes s @
                          [(new_node AudioBufferSourceNode)
                             \<lparr>buffer := Some b, loop := False, started := True,
                              outputs := [(length (nodes s) + 1, 0, 0)]\<rparr>,
                           (new_node GainNode)
                             \<lparr>gain := \<lparr>param_value = 0.5, events = []\<rparr>,
                              outputs := [(a, 0, 0)]\<rparr>]\<rparr>)))
       \<and> (\<forall>s'. playDrumSound drumType s = Inr s' \<longrightarrow> drumBuffers s' = drumBuffers s)
       \<and> (\<forall>ctx. audioContext s = Some ctx \<longrightarrow>
            (\<exists>p q. drumBuffers s ''kick'' = Some (kick_buffer ctx)
                 \<and> drumBuffers s ''snare'' = Some (snare_buffer ctx (random_values s) p)
                 \<and> drumBuffers s ''hihat'' = Some (hihat_buffer ctx (random_values s) q)))"
proof (intro conjI allI impI)
  have bank: "bank_loaded s" using assms by (rule reachable_bank)
  {
    assume "drumType \<notin> {''kick'', ''snare'', ''hihat''}"
    with bank have "drumBuffers s drumType = None"
      by (auto simp: bank_loaded_def split: option.splits)
    then show "playDrumSound drumType s = Inr s"
      by (simp add: playDrumSound_def split: option.splits)
  }
  {
    fix ctx a
    assume h: "audioContext s = Some ctx \<and> analyser s = Some a
                  \<and> drumType \<in> {''kick'', ''snare'', ''hihat''}"
    with bank obtain b where b: "drumBuffers s drumType = Some b"
      by (auto simp: bank_loaded_def)
    from h b have "playDrumSound drumType s =
                   Inr (s\<lparr>nodes := nodes s @
                          [(new_node AudioBufferSourceNode)
                             \<lparr>buffer := Some b, loop := False, started := True,
                              outputs := [(length (nodes s) + 1, 0, 0)]\<rparr>,
                           (new_node GainNode)
                             \<lparr>gain := \<lparr>param_value = 0.5, events = []\<rparr>,
                              outputs := [(a, 0, 0)]\<rparr>]\<rparr>)"
      by (simp add: playDrumSound_eq new_node_def)
    with b show "\<exists>b. drumBuffers s drumType = Some b
               \<and> playDrumSound drumType s =
                   Inr (s\<lparr>nodes := nodes s @
                          [(new_node AudioBufferSourceNode)
                             \<lparr>buffer := Some b, loop := False, started := True,
                              outputs := [(length (nodes s) + 1, 0, 0)]\<rparr>,
                           (new_node GainNode)
                             \<lparr>gain := \<lparr>param_value = 0.5, events = []\<rparr>,
                              outputs := [(a, 0, 0)]\<rparr>]\<rparr>)"
      by blast
  }
  {
    fix s'
    assume "playDrumSound drumType s = Inr s'"
    from playDrumSound_cases[OF this] show "drumBuffers s' = drumBuffers s" by auto
  }
  {
    fix ctx
    assume "audioContext s = Some ctx"
    with bank show "\<exists>p q. drumBuffers s ''kick'' = Some (kick_buffer ctx)
                 \<and> drumBuffers s ''snare'' = Some (snare_buffer ctx (random_values s) p)
                 \<and> drumBuffers s ''hihat'' = Some (hihat_buffer ctx (random_values s) q)"
      by (auto simp: bank_loaded_def)
  }
qed

theorem drum_trigger_witness:
  "reachable mounted_engine
   \<and> ''clap'' \<notin> {''kick'', ''snare'', ''hihat''}
   \<and> playDrumSound ''clap'' mounted_engine = Inr mounted_engine
   \<and> audioContext mounted_engine = Some \<lparr>sampleRate = 10, currentTime = 0, destination = 0\<rparr>
   \<and> analyser mounted_engine = Some 1
   \<and> ''kick'' \<in> {''kick'', ''snare'', ''hihat''}
   \<and> drumBuffers mounted_engine ''kick''
       = Some (kick_buffer \<lparr>sampleRate = 10, currentTime = 0, destination = 0\<rparr>)
   \<and> (\<exists>b. drumBuffers mounted_engine ''kick'' = Some b
        \<and> playDrumSound ''kick'' mounted_engine =
            Inr (mounted_engine\<lparr>nodes := nodes mounted_engine @
                   [(new_node AudioBufferSourceNode)
                      \<lparr>buffer := Some b, loop := False, started := True,
                       outputs := [(length (nodes mounted_engine) + 1, 0, 0)]\<rparr>,
                    (new_node GainNode)
                      \<lparr>gain := \<lparr>param_value = 0.5, events = []\<rparr>,
                       outputs := [(1, 0, 0)]\<rparr>]\<rparr>))"
proof -
  let ?ctx = "\<lparr>sampleRate = 10, currentTime = 0, destination = 0\<rparr>"
  note clap = drum_trigger[OF reachable_mounted, of "''clap''"]
  note kick = drum_trigger[OF reachable_mounted, of "''kick''"]
  have 1: "''clap'' \<notin> {''kick'', ''snare'', ''hihat''}" by simp
  have 2: "playDrumSound ''clap'' mounted_engine = Inr mounted_engine"
    by (rule mp[OF conjunct1[OF clap] 1])
  have 3: "''kick'' \<in> {''kick'', ''snare'', ''hihat''}" by simp
  have 4: "audioContext mounted_engine = Some ?ctx \<and> analyser mounted_engine = Some 1
           \<and> ''kick'' \<in> {''kick'', ''snare'', ''hihat''}"
    using mounted_initialised(1,2) 3 by (intro conjI)
  note 5 = mp[OF spec[OF spec[OF conjunct1[OF conjunct2[OF kick]]]] 4]
  have "\<exists>p q. drumBuffers mounted_engine ''kick'' = Some (kick_buffer ?ctx)
                 \<and> drumBuffers mounted_engine ''snare''
                     = Some (snare_buffer ?ctx (random_values mounted_engine) p)
                 \<and> drumBuffers mounted_engine ''hihat''
                     = Some (hihat_buffer ?ctx (random_values mounted_engine) q)"
    by (rule mp[OF spec[OF conjunct2[OF conjunct2[OF conjunct2[OF kick]]]] mounted_initialised(1)])
  then have 6: "drumBuffers mounted_engine ''kick'' = Some (kick_buffer ?ctx)" by blast
  show ?thesis
    by (intro conjI) (rule reachable_mounted 1 2 mounted_initialised(1,2) 3 6 5)+
qed

text \<open>
  C10. Whenever the audio context or the analyser has not been created, \<open>startBinaural\<close>,
  \<open>playChord\<close> and \<open>playDrumSound\<close> return at once: no error, and the state, nodes included,
  is the one they were called in.
\<close>

theorem uninitialised_calls_return:
  assumes "audioContext s = None \<or> analyser s = None"
  shows "startBinaural baseFreq beatFreq noiseMix panValue waveform s = Inr s
       \<and> playChord ns octave volume s = Inr s
       \<and> playDrumSound drumType s = Inr s"
  using assms
  by (auto simp: startBinaural_def playChord_def playDrumSound_def split: option.splits)

theorem uninitialised_calls_return_witness:
  "(audioContext (initial_engine (\<lambda>_. 0)) = None \<or> analyser (initial_engine (\<lambda>_. 0)) = None)
   \<and> startBinaural 200 4 0 0 Sine (initial_engine (\<lambda>_. 0)) = Inr (initial_engine (\<lambda>_. 0))
   \<and> playChord [0, 4, 7] 4 0.5 (initial_engine (\<lambda>_. 0)) = Inr (initial_engine (\<lambda>_. 0))
   \<and> playDrumSound ''kick'' (initial_engine (\<lambda>_. 0)) = Inr (initial_engine (\<lambda>_. 0))"
proof -
  have h: "audioContext (initial_engine (\<lambda>_. 0)) = None \<or> analyser (initial_engine (\<lambda>_. 0)) = None"
    by (simp add: initial_engine_def)
  from h uninitialised_calls_return[OF h, of 200 4 0 0 Sine "[0, 4, 7]" 4 "0.5" "''kick''"]
  show ?thesis by simp
qed

end
